theory Spec2Isabelle
  imports Main "HOL-Library.Extended_Nat" "HOL-Library.Multiset"
begin

section \<open>The constraint model consumed by the heuristics and the compilers\<close>

text \<open>
  The module \<^verbatim>\<open>cspbase\<close> (classes Variable, Constraint and CSP) is imported by both
  source files but is not part of the sources. Its classes are modelled from section 3
  and section 6 of the specification. Python objects are shared and mutated in place, so
  Variable objects live in an explicit store (a list, the address of an object is its
  index, allocation appends) and every other structure refers to them by address.
\<close>

type_synonym ref = nat

text \<open>
  Modelled from the spec: class Variable (section 3): a name, a full domain, a mutable
  current domain that is a subset of the full domain, and at most one assigned value.
\<close>

record Variable =
  name :: string
  dom :: "int list"
  curdom :: "int list"
  assignedValue :: "int option"

type_synonym store = "Variable list"

text \<open>
  Modelled from the spec: class Constraint (section 3): a name, an ordered scope of
  variables and the satisfying tuples, each aligned with the scope. The tuples are kept
  in the order \<^verbatim>\<open>add_satisfying_tuples\<close> received them; the satisfying-tuple set is
  the set of that list.
\<close>

record Constraint =
  cname :: string
  scope :: "ref list"
  sat_tuples :: "int list list"

text \<open>
  Modelled from the spec: class CSP, the problem container (section 3): it owns the
  variables and the constraints, in the order they were added.
\<close>

record CSP =
  csp_name :: string
  csp_vars :: "ref list"
  csp_cons :: "Constraint list"

text \<open>
  Modelled from the spec: the constructor \<^verbatim>\<open>Variable(name, domain)\<close>; nothing is
  pruned and nothing is assigned in a new variable.
\<close>

definition new_Variable :: "string \<Rightarrow> int list \<Rightarrow> Variable" where
  "new_Variable n d = \<lparr>name = n, dom = d, curdom = d, assignedValue = None\<rparr>"

text \<open>Modelled from the spec: \<^verbatim>\<open>Variable.domain()\<close>, the full domain sequence.\<close>

definition domain :: "Variable \<Rightarrow> int list" where
  "domain v = dom v"

text \<open>Modelled from the spec: \<^verbatim>\<open>Variable.cur_domain()\<close>, the current domain sequence.\<close>

definition cur_domain :: "Variable \<Rightarrow> int list" where
  "cur_domain v = curdom v"

text \<open>Modelled from the spec: \<^verbatim>\<open>Variable.cur_domain_size()\<close>.\<close>

definition cur_domain_size :: "Variable \<Rightarrow> nat" where
  "cur_domain_size v = length (curdom v)"

text \<open>
  Modelled from the spec: \<^verbatim>\<open>Variable.assign(value)\<close> (section 6): it requires the
  value to be in the current domain and sets the sole assigned value. A call that breaks
  the requirement has no specified outcome and is the error value \<open>None\<close>.
\<close>

definition assign :: "int \<Rightarrow> Variable \<Rightarrow> Variable option" where
  "assign d v = (if d \<in> set (curdom v) then Some (v\<lparr>assignedValue := Some d\<rparr>) else None)"

text \<open>
  Modelled from the spec: \<^verbatim>\<open>Variable.unassign(value)\<close> (section 6): it clears the
  assigned value and restores no domain state.
\<close>

definition unassign :: "int \<Rightarrow> Variable \<Rightarrow> Variable" where
  "unassign d v = v\<lparr>assignedValue := None\<rparr>"

text \<open>
  Modelled from the spec: \<^verbatim>\<open>Constraint.get_unasgn_vars()\<close>, the variables of the scope
  that hold no assigned value, in scope order.
\<close>

definition get_unasgn_vars :: "store \<Rightarrow> Constraint \<Rightarrow> ref list" where
  "get_unasgn_vars h c = filter (\<lambda>a. assignedValue (h ! a) = None) (scope c)"

text \<open>
  Modelled from the spec: a value is consistent with a variable's current assignment or
  domain when it is the assigned value of an assigned variable, or lies in the current
  domain of an unassigned one.
\<close>

definition consistent :: "store \<Rightarrow> ref \<Rightarrow> int \<Rightarrow> bool" where
  "consistent h a x =
     (case assignedValue (h ! a) of Some y \<Rightarrow> x = y | None \<Rightarrow> x \<in> set (curdom (h ! a)))"

text \<open>
  Modelled from the spec: \<^verbatim>\<open>Constraint.has_support(variable, value)\<close> (section 6):
  true iff some satisfying tuple, consistent with all other variables' current
  assignments and domains, assigns that value to that variable.
\<close>

definition has_support :: "store \<Rightarrow> Constraint \<Rightarrow> ref \<Rightarrow> int \<Rightarrow> bool" where
  "has_support h c var val =
     (var \<in> set (scope c) \<and>
      list_ex (\<lambda>t. length t = length (scope c) \<and>
                   list_all (\<lambda>(a, x). if a = var then x = val else consistent h a x)
                            (zip (scope c) t))
              (sat_tuples c))"

text \<open>
  Modelled from the spec: \<^verbatim>\<open>CSP.get_all_unasgn_vars()\<close>, the variables of the problem
  that hold no assigned value, in the order they were added.
\<close>

definition get_all_unasgn_vars :: "store \<Rightarrow> CSP \<Rightarrow> ref list" where
  "get_all_unasgn_vars h csp = filter (\<lambda>a. assignedValue (h ! a) = None) (csp_vars csp)"

text \<open>
  Modelled from the spec: \<^verbatim>\<open>CSP.get_cons_with_var(variable)\<close>, the constraints
  touching the variable, in the order they were added.
\<close>

definition get_cons_with_var :: "CSP \<Rightarrow> ref \<Rightarrow> Constraint list" where
  "get_cons_with_var csp var = filter (\<lambda>c. var \<in> set (scope c)) (csp_cons csp)"

section \<open>heuristics.py\<close>

subsection \<open>ord_dh\<close>

text \<open>
  The innermost loop of \<^verbatim>\<open>ord_dh\<close> over the unassigned variables of one constraint.
  \<^verbatim>\<open>is\<close> and \<^verbatim>\<open>in\<close> compare objects by identity, here equality of addresses. The
  state of the loop is the list \<^verbatim>\<open>seenVars\<close> and the counter \<^verbatim>\<open>curDegree\<close>.
\<close>

fun dh_scan :: "ref \<Rightarrow> ref list \<Rightarrow> ref list \<Rightarrow> int \<Rightarrow> int" where
  "dh_scan v [] seenVars curDegree = curDegree"
| "dh_scan v (unasgnV # rest) seenVars curDegree =
     (if unasgnV \<noteq> v \<and> unasgnV \<notin> set seenVars
      then dh_scan v rest (seenVars @ [unasgnV]) (curDegree + 1)
      else dh_scan v rest seenVars curDegree)"

text \<open>
  The loop over the constraints touching \<^verbatim>\<open>v\<close>: \<^verbatim>\<open>seenVars\<close> is set to the empty
  list at the start of every iteration, \<^verbatim>\<open>curDegree\<close> is carried along.
\<close>

fun dh_degree :: "store \<Rightarrow> ref \<Rightarrow> Constraint list \<Rightarrow> int \<Rightarrow> int" where
  "dh_degree h v [] curDegree = curDegree"
| "dh_degree h v (c # cs) curDegree =
     dh_degree h v cs (dh_scan v (get_unasgn_vars h c) [] curDegree)"

fun dh_loop :: "store \<Rightarrow> CSP \<Rightarrow> ref list \<Rightarrow> int \<times> ref option \<Rightarrow> int \<times> ref option" where
  "dh_loop h csp [] (maxDegree, var) = (maxDegree, var)"
| "dh_loop h csp (v # vs) (maxDegree, var) =
     (let curDegree = dh_degree h v (get_cons_with_var csp v) 0
      in if curDegree > maxDegree then dh_loop h csp vs (curDegree, Some v)
         else dh_loop h csp vs (maxDegree, var))"

definition ord_dh :: "store \<Rightarrow> CSP \<Rightarrow> ref option" where
  "ord_dh h csp = snd (dh_loop h csp (get_all_unasgn_vars h csp) (- 1, None))"

subsection \<open>ord_mrv\<close>

text \<open>
  \<^verbatim>\<open>mrv\<close> starts as \<^verbatim>\<open>float('inf')\<close>, which is greater than every integer: the
  extended naturals with \<open>\<infinity>\<close>.
\<close>

fun mrv_loop :: "store \<Rightarrow> ref list \<Rightarrow> enat \<times> ref option \<Rightarrow> enat \<times> ref option" where
  "mrv_loop h [] (mrv, var) = (mrv, var)"
| "mrv_loop h (v # vs) (mrv, var) =
     (let rv = cur_domain_size (h ! v)
      in if enat rv < mrv then mrv_loop h vs (enat rv, Some v)
         else mrv_loop h vs (mrv, var))"

definition ord_mrv :: "store \<Rightarrow> CSP \<Rightarrow> ref option" where
  "ord_mrv h csp = snd (mrv_loop h (get_all_unasgn_vars h csp) (\<infinity>, None))"

subsection \<open>val_lcv\<close>

text \<open>The three inner loops of \<^verbatim>\<open>val_lcv\<close>, each carrying the counter \<^verbatim>\<open>numPruned\<close>.\<close>

fun lcv_vals :: "store \<Rightarrow> Constraint \<Rightarrow> ref \<Rightarrow> int list \<Rightarrow> nat \<Rightarrow> nat" where
  "lcv_vals h c adjV [] numPruned = numPruned"
| "lcv_vals h c adjV (adjVal # rest) numPruned =
     (if \<not> has_support h c adjV adjVal then lcv_vals h c adjV rest (numPruned + 1)
      else lcv_vals h c adjV rest numPruned)"

fun lcv_vars :: "store \<Rightarrow> Constraint \<Rightarrow> ref list \<Rightarrow> nat \<Rightarrow> nat" where
  "lcv_vars h c [] numPruned = numPruned"
| "lcv_vars h c (adjV # rest) numPruned =
     lcv_vars h c rest (lcv_vals h c adjV (cur_domain (h ! adjV)) numPruned)"

fun lcv_cons :: "store \<Rightarrow> Constraint list \<Rightarrow> nat \<Rightarrow> nat" where
  "lcv_cons h [] numPruned = numPruned"
| "lcv_cons h (c # cs) numPruned =
     lcv_cons h cs (lcv_vars h c (get_unasgn_vars h c) numPruned)"

text \<open>
  The loop over the current domain of \<^verbatim>\<open>var\<close>, which is read once before the first
  iteration. The store is threaded through \<^verbatim>\<open>assign\<close> and \<^verbatim>\<open>unassign\<close>.
\<close>

fun lcv_loop ::
  "store \<Rightarrow> CSP \<Rightarrow> ref \<Rightarrow> int list \<Rightarrow> (int \<times> nat) list \<Rightarrow> (store \<times> (int \<times> nat) list) option"
where
  "lcv_loop h csp var [] valOrder = Some (h, valOrder)"
| "lcv_loop h csp var (d # ds) valOrder =
     (case assign d (h ! var) of
        None \<Rightarrow> None
      | Some x \<Rightarrow>
          (let h1 = h[var := x];
               numPruned = lcv_cons h1 (get_cons_with_var csp var) 0;
               h2 = h1[var := unassign d (h1 ! var)]
           in lcv_loop h2 csp var ds (valOrder @ [(d, numPruned)])))"

text \<open>
  \<^verbatim>\<open>sorted\<close> with a key is a stable ascending sort, as is \<open>sort_key\<close>. The result is
  the final store together with the returned list.
\<close>

definition val_lcv :: "store \<Rightarrow> CSP \<Rightarrow> ref \<Rightarrow> (store \<times> int list) option" where
  "val_lcv h csp var =
     (case lcv_loop h csp var (cur_domain (h ! var)) [] of
        None \<Rightarrow> None
      | Some (h', valOrder) \<Rightarrow> Some (h', map fst (sort_key snd valOrder)))"

section \<open>Python values used by kenken_csp.py\<close>

datatype error = IndexError | ZeroDivisionError | OverflowError

text \<open>Sequencing of steps that may raise: the first exception ends the computation.\<close>

definition and_then :: "error + 'a \<Rightarrow> ('a \<Rightarrow> error + 'b) \<Rightarrow> error + 'b" where
  "and_then m f = (case m of Inl e \<Rightarrow> Inl e | Inr x \<Rightarrow> f x)"

fun map_err :: "('a \<Rightarrow> error + 'b) \<Rightarrow> 'a list \<Rightarrow> error + 'b list" where
  "map_err f [] = Inr []"
| "map_err f (x # xs) =
     and_then (f x) (\<lambda>y. and_then (map_err f xs) (\<lambda>ys. Inr (y # ys)))"

text \<open>
  \<^verbatim>\<open>xs[i]\<close> and \<^verbatim>\<open>xs[i] = y\<close>: an index below zero counts from the end, an index
  outside the list raises \<^verbatim>\<open>IndexError\<close>.
\<close>

definition py_index :: "'a list \<Rightarrow> int \<Rightarrow> error + nat" where
  "py_index xs i =
     (if 0 \<le> i \<and> i < int (length xs) then Inr (nat i)
      else if i < 0 \<and> - int (length xs) \<le> i then Inr (nat (int (length xs) + i))
      else Inl IndexError)"

definition getitem :: "'a list \<Rightarrow> int \<Rightarrow> error + 'a" where
  "getitem xs i = and_then (py_index xs i) (\<lambda>k. Inr (xs ! k))"

definition setitem :: "'a list \<Rightarrow> int \<Rightarrow> 'a \<Rightarrow> error + 'a list" where
  "setitem xs i y = and_then (py_index xs i) (\<lambda>k. Inr (xs[k := y]))"

text \<open>\<^verbatim>\<open>range(n)\<close>, empty when \<open>n\<close> is not positive.\<close>

definition range_py :: "int \<Rightarrow> int list" where
  "range_py n = map int [0..<nat n]"

text \<open>\<^verbatim>\<open>str\<close> of an integer, as \<^verbatim>\<open>'{}'.format\<close> prints it.\<close>

definition digit_char :: "nat \<Rightarrow> char" where
  "digit_char n = ''0123456789'' ! n"

fun str_nat :: "nat \<Rightarrow> string" where
  "str_nat n = (if n < 10 then [digit_char n] else str_nat (n div 10) @ [digit_char (n mod 10)])"

declare str_nat.simps [simp del]

definition str_int :: "int \<Rightarrow> string" where
  "str_int i = (if i < 0 then CHR ''-'' # str_nat (nat (- i)) else str_nat (nat i))"

text \<open>\<^verbatim>\<open>sep.join(xs)\<close> and the slice \<^verbatim>\<open>s[-3:]\<close>.\<close>

fun join :: "string \<Rightarrow> string list \<Rightarrow> string" where
  "join sep [] = []"
| "join sep [x] = x"
| "join sep (x # y # ys) = x @ sep @ join sep (y # ys)"

definition last3 :: "string \<Rightarrow> string" where
  "last3 s = drop (length s - 3) s"

text \<open>
  \<^verbatim>\<open>itertools.combinations(items, r=2)\<close>: the pairs of positions \<open>i < j\<close>, in
  lexicographic order.
\<close>

fun combinations2 :: "'a list \<Rightarrow> ('a \<times> 'a) list" where
  "combinations2 [] = []"
| "combinations2 (x # xs) = map (Pair x) xs @ combinations2 xs"

text \<open>
  \<^verbatim>\<open>itertools.permutations(t)\<close>: every ordering of the positions of \<open>t\<close>, in
  lexicographic order of the positions; equal values at different positions give
  separate orderings. \<open>picks\<close> lists each element with the rest of the list.
\<close>

fun picks :: "'a list \<Rightarrow> ('a \<times> 'a list) list" where
  "picks [] = []"
| "picks (x # xs) = (x, xs) # map (\<lambda>p. (fst p, x # snd p)) (picks xs)"

function permutations :: "'a list \<Rightarrow> 'a list list" where
  "permutations [] = [[]]"
| "permutations (x # xs) =
     concat (map (\<lambda>p. map ((#) (fst p)) (permutations (snd p))) (picks (x # xs)))"
  by pat_completeness auto
termination
proof (relation "measure length")
  show "wf (measure length)" by simp
next
  fix x :: 'a and xs p
  assume p: "p \<in> set (picks (x # xs))"
  have "length (snd q) < length ys" if "q \<in> set (picks ys)" for q :: "'a \<times> 'a list" and ys
    using that by (induction ys arbitrary: q) auto
  from this [OF p] show "(snd p, x # xs) \<in> measure length" by simp
qed

text \<open>
  \<^verbatim>\<open>itertools.product(*varsDom)\<close> is \<open>product_lists\<close>: the rightmost position
  advances first. \<^verbatim>\<open>itertools.product(a, b)\<close> of two sequences is \<open>List.product\<close>.
\<close>

text \<open>
  The division cage computes with Python floats: \<^verbatim>\<open>res /= i\<close> turns \<^verbatim>\<open>res\<close> into a
  float, and \<^verbatim>\<open>res == val\<close> then compares a float with an integer. The float type
  \<open>'f\<close> and its three operations are parameters of the embedding: the true division
  of two integers, the division of a float by an integer, and the comparison of a float
  with an integer. A division may raise (\<^verbatim>\<open>OverflowError\<close>).
\<close>

record 'f float_ops =
  int_truediv :: "int \<Rightarrow> int \<Rightarrow> error + 'f"
  float_truediv :: "'f \<Rightarrow> int \<Rightarrow> error + 'f"
  float_eq_int :: "'f \<Rightarrow> int \<Rightarrow> bool"

datatype 'f num = PyInt int | PyFloat 'f

section \<open>The constraint model, continued: construction\<close>

text \<open>Allocation of a new Variable object: it is appended to the store.\<close>

definition alloc :: "store \<Rightarrow> Variable \<Rightarrow> store \<times> ref" where
  "alloc h v = (h @ [v], length h)"

text \<open>Modelled from the spec: the constructor \<^verbatim>\<open>Constraint(name, scope)\<close>.\<close>

definition new_Constraint :: "string \<Rightarrow> ref list \<Rightarrow> Constraint" where
  "new_Constraint n sc = \<lparr>cname = n, scope = sc, sat_tuples = []\<rparr>"

text \<open>Modelled from the spec: \<^verbatim>\<open>Constraint.add_satisfying_tuples(tuples)\<close>.\<close>

definition add_satisfying_tuples :: "Constraint \<Rightarrow> int list list \<Rightarrow> Constraint" where
  "add_satisfying_tuples c ts = c\<lparr>sat_tuples := sat_tuples c @ ts\<rparr>"

text \<open>
  Modelled from the spec: the constructor \<^verbatim>\<open>CSP(name)\<close> and the methods
  \<^verbatim>\<open>add_var\<close> and \<^verbatim>\<open>add_constraint\<close> of the problem container.
\<close>

definition new_CSP :: "string \<Rightarrow> CSP" where
  "new_CSP n = \<lparr>csp_name = n, csp_vars = [], csp_cons = []\<rparr>"

definition add_var :: "CSP \<Rightarrow> ref \<Rightarrow> CSP" where
  "add_var csp v = csp\<lparr>csp_vars := csp_vars csp @ [v]\<rparr>"

definition add_constraint :: "CSP \<Rightarrow> Constraint \<Rightarrow> CSP" where
  "add_constraint csp c = csp\<lparr>csp_cons := csp_cons csp @ [c]\<rparr>"

section \<open>kenken_csp.py\<close>

subsection \<open>The board of variables\<close>

text \<open>
  The two nested loops that fill \<^verbatim>\<open>vars\<close>, shared by the three model functions:
  one new Variable named \<^verbatim>\<open>'V{}{}'.format(vRow, vCol)\<close> per cell, row by row
  (\<open>dom'\<close> and \<open>size'\<close> are \<^verbatim>\<open>dom\<close> and \<^verbatim>\<open>size\<close> of the source).
\<close>

fun new_row :: "store \<Rightarrow> int list \<Rightarrow> int \<Rightarrow> int list \<Rightarrow> ref list \<Rightarrow> store \<times> ref list" where
  "new_row h dom' vRow [] row = (h, row)"
| "new_row h dom' vRow (vCol # rest) row =
     (case alloc h (new_Variable (''V'' @ str_int vRow @ str_int vCol) dom') of
        (h', a) \<Rightarrow> new_row h' dom' vRow rest (row @ [a]))"

fun new_board :: "store \<Rightarrow> int list \<Rightarrow> int list \<Rightarrow> ref list list \<Rightarrow> store \<times> ref list list" where
  "new_board h dom' [] vars = (h, vars)"
| "new_board h dom' (vRow # rest) vars =
     (case new_row h dom' vRow dom' [] of
        (h', row) \<Rightarrow> new_board h' dom' rest (vars @ [row]))"

text \<open>
  \<^verbatim>\<open>vars[p[0]][p[1]]\<close> for a pair of indices, and the coordinates of a line:
  \<^verbatim>\<open>itertools.product([index], range(size))\<close> for a row,
  \<^verbatim>\<open>itertools.product(range(size), [index])\<close> for a column.
\<close>

definition board_get :: "ref list list \<Rightarrow> int \<times> int \<Rightarrow> error + ref" where
  "board_get vars p = and_then (getitem vars (fst p)) (\<lambda>row. getitem row (snd p))"

definition line_items :: "int \<Rightarrow> int \<Rightarrow> bool \<Rightarrow> (int \<times> int) list" where
  "line_items index size' isRowConstraints =
     (if isRowConstraints then List.product [index] (range_py size')
      else List.product (range_py size') [index])"

text \<open>The construction of the CSP object at the end of each model function.\<close>

definition build_csp :: "int \<Rightarrow> ref list list \<Rightarrow> Constraint list \<Rightarrow> CSP" where
  "build_csp size' vars cons =
     foldl add_constraint (foldl add_var (new_CSP (str_int size' @ ''-Kenken'')) (concat vars)) cons"

subsection \<open>binary_ne_grid\<close>

text \<open>The body of the loop over the combinations: one not-equal constraint.\<close>

definition binary_ne_con ::
  "store \<Rightarrow> ref list list \<Rightarrow> (int \<times> int) \<times> (int \<times> int) \<Rightarrow> error + Constraint" where
  "binary_ne_con h vars comb =
     (let firstV = fst comb; secondV = snd comb
      in and_then (board_get vars firstV) (\<lambda>v1.
         and_then (board_get vars secondV) (\<lambda>v2.
           let con = new_Constraint
                 (''C(V'' @ str_int (fst firstV + 1) @ str_int (snd firstV + 1) @ '',V'' @
                  str_int (fst secondV + 1) @ str_int (snd secondV + 1) @ '')'') [v1, v2];
               satTuples = map (\<lambda>t. [fst t, snd t])
                 (filter (\<lambda>t. fst t \<noteq> snd t) (List.product (domain (h ! v1)) (domain (h ! v2))))
           in Inr (add_satisfying_tuples con satTuples))))"

fun binary_ne_loop ::
  "store \<Rightarrow> ref list list \<Rightarrow> ((int \<times> int) \<times> (int \<times> int)) list \<Rightarrow> Constraint list \<Rightarrow>
   error + Constraint list" where
  "binary_ne_loop h vars [] cons = Inr cons"
| "binary_ne_loop h vars (comb # rest) cons =
     and_then (binary_ne_con h vars comb) (\<lambda>con. binary_ne_loop h vars rest (cons @ [con]))"

definition helper_binary_ne_constraint ::
  "store \<Rightarrow> int \<Rightarrow> int \<Rightarrow> ref list list \<Rightarrow> bool \<Rightarrow> error + Constraint list" where
  "helper_binary_ne_constraint h index size' vars isRowConstraints =
     binary_ne_loop h vars (combinations2 (line_items index size' isRowConstraints)) []"

fun binary_grid_loop ::
  "store \<Rightarrow> int \<Rightarrow> ref list list \<Rightarrow> int list \<Rightarrow> Constraint list \<Rightarrow> error + Constraint list" where
  "binary_grid_loop h size' vars [] cons = Inr cons"
| "binary_grid_loop h size' vars (index # rest) cons =
     and_then (helper_binary_ne_constraint h index size' vars True) (\<lambda>rowCons.
     and_then (helper_binary_ne_constraint h index size' vars False) (\<lambda>colCons.
       binary_grid_loop h size' vars rest (cons @ rowCons @ colCons)))"

text \<open>
  The model functions take the store at the time of the call and return the store, the
  CSP object and the board.
\<close>

definition binary_ne_grid :: "store \<Rightarrow> int list list \<Rightarrow> error + (store \<times> CSP \<times> ref list list)" where
  "binary_ne_grid h0 kenken_grid =
     and_then (getitem kenken_grid 0) (\<lambda>first.
     and_then (getitem first 0) (\<lambda>size'.
       let dom = map (\<lambda>i. i + 1) (range_py size')
       in case new_board h0 dom dom [] of
            (h, vars) \<Rightarrow>
              and_then (binary_grid_loop h size' vars (range_py size') []) (\<lambda>cons.
                Inr (h, build_csp size' vars cons, vars))))"

subsection \<open>nary_ad_grid\<close>

text \<open>
  The printed form \<^verbatim>\<open>str(v)\<close> of a Variable is defined in the absent \<^verbatim>\<open>cspbase\<close>
  and not described by the specification: it is the parameter \<open>vstr\<close>.
\<close>

definition helper_nary_ad_constraint ::
  "(Variable \<Rightarrow> string) \<Rightarrow> store \<Rightarrow> int \<Rightarrow> int \<Rightarrow> ref list list \<Rightarrow> bool \<Rightarrow> error + Constraint"
where
  "helper_nary_ad_constraint vstr h index size' vars isRowConstraints =
     and_then (map_err (board_get vars) (line_items index size' isRowConstraints)) (\<lambda>curVars.
       let conNameVars = map (\<lambda>v. last3 (vstr (h ! v))) curVars;
           conName = join '','' conNameVars;
           con = new_Constraint (''C('' @ conName @ '')'') curVars;
           varsDom = map (\<lambda>v. domain (h ! v)) curVars;
           satTuples = filter (\<lambda>t. length t = length (remdups t)) (product_lists varsDom)
       in Inr (add_satisfying_tuples con satTuples))"

fun nary_grid_loop ::
  "(Variable \<Rightarrow> string) \<Rightarrow> store \<Rightarrow> int \<Rightarrow> ref list list \<Rightarrow> int list \<Rightarrow> Constraint list \<Rightarrow>
   error + Constraint list" where
  "nary_grid_loop vstr h size' vars [] cons = Inr cons"
| "nary_grid_loop vstr h size' vars (index # rest) cons =
     and_then (helper_nary_ad_constraint vstr h index size' vars True) (\<lambda>rowCon.
     and_then (helper_nary_ad_constraint vstr h index size' vars False) (\<lambda>colCon.
       nary_grid_loop vstr h size' vars rest (cons @ [rowCon] @ [colCon])))"

definition nary_ad_grid ::
  "(Variable \<Rightarrow> string) \<Rightarrow> store \<Rightarrow> int list list \<Rightarrow> error + (store \<times> CSP \<times> ref list list)" where
  "nary_ad_grid vstr h0 kenken_grid =
     and_then (getitem kenken_grid 0) (\<lambda>first.
     and_then (getitem first 0) (\<lambda>size'.
       let dom = map (\<lambda>i. i + 1) (range_py size')
       in case new_board h0 dom dom [] of
            (h, vars) \<Rightarrow>
              and_then (nary_grid_loop vstr h size' vars (range_py size') []) (\<lambda>cons.
                Inr (h, build_csp size' vars cons, vars))))"

subsection \<open>kenken_csp_model\<close>

text \<open>
  The check of one ordering \<^verbatim>\<open>r\<close> of a subtraction cage: \<^verbatim>\<open>res = r[0]\<close>, then
  \<^verbatim>\<open>res -= i\<close> for the rest.
\<close>

fun sub_chain :: "int \<Rightarrow> int list \<Rightarrow> int" where
  "sub_chain res [] = res"
| "sub_chain res (i # rest) = sub_chain (res - i) rest"

text \<open>
  The check of one ordering of a division cage: \<^verbatim>\<open>res /= i\<close> raises
  \<^verbatim>\<open>ZeroDivisionError\<close> for a zero divisor and otherwise yields a float.
\<close>

fun div_chain :: "'f float_ops \<Rightarrow> 'f num \<Rightarrow> int list \<Rightarrow> error + 'f num" where
  "div_chain ops res [] = Inr res"
| "div_chain ops res (i # rest) =
     (if i = 0 then Inl ZeroDivisionError
      else and_then (case res of PyInt a \<Rightarrow> int_truediv ops a i
                               | PyFloat x \<Rightarrow> float_truediv ops x i)
             (\<lambda>y. div_chain ops (PyFloat y) rest))"

definition num_eq :: "'f float_ops \<Rightarrow> 'f num \<Rightarrow> int \<Rightarrow> bool" where
  "num_eq ops res val = (case res of PyInt a \<Rightarrow> a = val | PyFloat x \<Rightarrow> float_eq_int ops x val)"

text \<open>
  The loops over \<^verbatim>\<open>itertools.permutations(t)\<close>: the tuple \<^verbatim>\<open>t\<close> is appended once
  for every ordering that meets the target.
\<close>

fun sub_perms :: "int list list \<Rightarrow> int list \<Rightarrow> int \<Rightarrow> int list list \<Rightarrow> error + int list list" where
  "sub_perms [] t val satTuples = Inr satTuples"
| "sub_perms (r # rest) t val satTuples =
     and_then (getitem r 0) (\<lambda>r0.
       let res = sub_chain r0 (tl r)
       in if res = val then sub_perms rest t val (satTuples @ [t])
          else sub_perms rest t val satTuples)"

fun div_perms ::
  "'f float_ops \<Rightarrow> int list list \<Rightarrow> int list \<Rightarrow> int \<Rightarrow> int list list \<Rightarrow> error + int list list"
where
  "div_perms ops [] t val satTuples = Inr satTuples"
| "div_perms ops (r # rest) t val satTuples =
     and_then (getitem r 0) (\<lambda>r0.
     and_then (div_chain ops (PyInt r0) (tl r)) (\<lambda>res.
       if num_eq ops res val then div_perms ops rest t val (satTuples @ [t])
       else div_perms ops rest t val satTuples))"

text \<open>The loop over the tuples of the product of the domains, one branch per operator.\<close>

fun cage_tuples ::
  "'f float_ops \<Rightarrow> int \<Rightarrow> int \<Rightarrow> int list list \<Rightarrow> int list list \<Rightarrow> error + int list list" where
  "cage_tuples ops op val [] satTuples = Inr satTuples"
| "cage_tuples ops op val (t # rest) satTuples =
     (if op = 0 then
        (if sum_list t = val then cage_tuples ops op val rest (satTuples @ [t])
         else cage_tuples ops op val rest satTuples)
      else if op = 1 then
        and_then (sub_perms (permutations t) t val satTuples) (cage_tuples ops op val rest)
      else if op = 2 then
        and_then (div_perms ops (permutations t) t val satTuples) (cage_tuples ops op val rest)
      else if op = 3 then
        (if prod_list t = val then cage_tuples ops op val rest (satTuples @ [t])
         else cage_tuples ops op val rest satTuples)
      else cage_tuples ops op val rest satTuples)"

text \<open>The state of the loop over the rows: the store, the board and the constraints.\<close>

type_synonym build = "store \<times> ref list list \<times> Constraint list"

text \<open>
  A row of length 2 is a forced cell: a new Variable with the one-value domain is
  created, then stored into the board at the cell.
\<close>

definition forced_cell :: "int list \<Rightarrow> build \<Rightarrow> error + build" where
  "forced_cell cage st =
     (case st of (h, vars, cons) \<Rightarrow>
        let val = cage ! 1;
            cell_i = (cage ! 0) div 10 - 1;
            cell_j = (cage ! 0) mod 10 - 1
        in case alloc h (new_Variable (''V'' @ str_int (cell_i + 1) @ str_int (cell_j + 1)) [val]) of
             (h', a) \<Rightarrow>
               and_then (getitem vars cell_i) (\<lambda>row.
               and_then (setitem row cell_j a) (\<lambda>row'.
               and_then (setitem vars cell_i row') (\<lambda>vars'. Inr (h', vars', cons)))))"

text \<open>A row of length above 2 is a cage: its cells, then the target and the operator.\<close>

definition larger_cage ::
  "'f float_ops \<Rightarrow> (Variable \<Rightarrow> string) \<Rightarrow> int list \<Rightarrow> build \<Rightarrow> error + build" where
  "larger_cage ops vstr cage st =
     (case st of (h, vars, cons) \<Rightarrow>
        let val = cage ! (length cage - 2);
            op = cage ! (length cage - 1)
        in and_then (map_err (\<lambda>v. board_get vars (v div 10 - 1, v mod 10 - 1))
                       (take (length cage - 2) cage)) (\<lambda>cageVars.
             let conNameVars = map (\<lambda>v. last3 (vstr (h ! v))) cageVars;
                 conName = join '','' conNameVars;
                 con = new_Constraint (''Cage('' @ conName @ '')'') cageVars;
                 varsDom = map (\<lambda>v. domain (h ! v)) cageVars
             in and_then (cage_tuples ops op val (product_lists varsDom) []) (\<lambda>satTuples.
                  Inr (h, vars, cons @ [add_satisfying_tuples con satTuples]))))"

definition cage_step ::
  "'f float_ops \<Rightarrow> (Variable \<Rightarrow> string) \<Rightarrow> int list \<Rightarrow> build \<Rightarrow> error + build" where
  "cage_step ops vstr cage st =
     (if length cage = 1 then Inr st
      else and_then (if length cage = 2 then forced_cell cage st else Inr st) (\<lambda>st'.
             if length cage > 2 then larger_cage ops vstr cage st' else Inr st'))"

fun cage_loop ::
  "'f float_ops \<Rightarrow> (Variable \<Rightarrow> string) \<Rightarrow> int list list \<Rightarrow> build \<Rightarrow> error + build" where
  "cage_loop ops vstr [] st = Inr st"
| "cage_loop ops vstr (cage # rest) st =
     and_then (cage_step ops vstr cage st) (cage_loop ops vstr rest)"

definition kenken_csp_model ::
  "'f float_ops \<Rightarrow> (Variable \<Rightarrow> string) \<Rightarrow> store \<Rightarrow> int list list \<Rightarrow>
   error + (store \<times> CSP \<times> ref list list)" where
  "kenken_csp_model ops vstr h0 kenken_grid =
     and_then (getitem kenken_grid 0) (\<lambda>first.
     and_then (getitem first 0) (\<lambda>size'.
       let dom = map (\<lambda>i. i + 1) (range_py size')
       in case new_board h0 dom dom [] of
            (h1, vars1) \<Rightarrow>
              and_then (cage_loop ops vstr kenken_grid (h1, vars1, [])) (\<lambda>st.
                case st of (h, vars, cageCons) \<Rightarrow>
                  and_then (nary_grid_loop vstr h size' vars (range_py size') cageCons) (\<lambda>cons.
                    Inr (h, build_csp size' vars cons, vars)))))"

section \<open>Notions of the specification and example problem states\<close>

subsection \<open>The pruning count of the least-constraining-value heuristic\<close>

text \<open>
  The store in which \<^verbatim>\<open>var\<close> is tentatively assigned \<open>d\<close>, and the store in which its
  assignment is cleared.
\<close>

definition tentative :: "store \<Rightarrow> ref \<Rightarrow> int \<Rightarrow> store" where
  "tentative h var d = h[var := (h ! var)\<lparr>assignedValue := Some d\<rparr>]"

definition clear :: "store \<Rightarrow> ref \<Rightarrow> store" where
  "clear h var = h[var := (h ! var)\<lparr>assignedValue := None\<rparr>]"

text \<open>
  The specification's pruning count of a value \<open>d\<close>, in its own words: the combinations
  of a constraint touching \<^verbatim>\<open>var\<close>, another unassigned variable of that constraint and
  a value of that variable's current domain that have no support once \<^verbatim>\<open>var\<close> is
  tentatively assigned \<open>d\<close>.
\<close>

definition lost_support :: "store \<Rightarrow> CSP \<Rightarrow> ref \<Rightarrow> (Constraint \<times> ref \<times> int) list" where
  "lost_support h csp var =
     [(c, adjV, adjVal).
        c \<leftarrow> get_cons_with_var csp var,
        adjV \<leftarrow> get_unasgn_vars h c, adjV \<noteq> var,
        adjVal \<leftarrow> cur_domain (h ! adjV),
        \<not> has_support h c adjV adjVal]"

definition prune_count :: "store \<Rightarrow> CSP \<Rightarrow> ref \<Rightarrow> int \<Rightarrow> nat" where
  "prune_count h csp var d = length (lost_support (tentative h var d) csp var)"

subsection \<open>The degree of the specification\<close>

text \<open>
  The specification's degree of a variable \<open>v\<close>: the distinct other unassigned
  variables over all constraints touching \<open>v\<close>, each listed once.
\<close>

definition distinct_neighbours :: "store \<Rightarrow> CSP \<Rightarrow> ref \<Rightarrow> ref list" where
  "distinct_neighbours h csp v =
     remdups (filter (\<lambda>u. u \<noteq> v) (concat (map (get_unasgn_vars h) (get_cons_with_var csp v))))"

subsection \<open>Example problem states\<close>

text \<open>
  The 3 by 3 puzzle with the single cage \<^verbatim>\<open>[11, 12, 3, 0]\<close>, as the n-ary model
  compiles it (the cage constraint first, then row and column constraints in turn), at
  a search node where the cell of row 1 and column 3 is assigned.
\<close>

definition ad3 :: "int list list" where
  "ad3 = [[1, 2, 3], [1, 3, 2], [2, 1, 3], [2, 3, 1], [3, 1, 2], [3, 2, 1]]"

definition dh_store :: store where
  "dh_store =
     [new_Variable ''V11'' [1, 2, 3], new_Variable ''V12'' [1, 2, 3],
      (new_Variable ''V13'' [1, 2, 3])\<lparr>assignedValue := Some 3\<rparr>,
      new_Variable ''V21'' [1, 2, 3], new_Variable ''V22'' [1, 2, 3], new_Variable ''V23'' [1, 2, 3],
      new_Variable ''V31'' [1, 2, 3], new_Variable ''V32'' [1, 2, 3], new_Variable ''V33'' [1, 2, 3]]"

definition dh_csp :: CSP where
  "dh_csp =
     \<lparr>csp_name = ''3-Kenken'', csp_vars = [0, 1, 2, 3, 4, 5, 6, 7, 8],
      csp_cons =
        [\<lparr>cname = ''Cage(V11,V12)'', scope = [0, 1], sat_tuples = [[1, 2], [2, 1]]\<rparr>,
         \<lparr>cname = ''C(V11,V12,V13)'', scope = [0, 1, 2], sat_tuples = ad3\<rparr>,
         \<lparr>cname = ''C(V11,V21,V31)'', scope = [0, 3, 6], sat_tuples = ad3\<rparr>,
         \<lparr>cname = ''C(V21,V22,V23)'', scope = [3, 4, 5], sat_tuples = ad3\<rparr>,
         \<lparr>cname = ''C(V12,V22,V32)'', scope = [1, 4, 7], sat_tuples = ad3\<rparr>,
         \<lparr>cname = ''C(V31,V32,V33)'', scope = [6, 7, 8], sat_tuples = ad3\<rparr>,
         \<lparr>cname = ''C(V13,V23,V33)'', scope = [2, 5, 8], sat_tuples = ad3\<rparr>]\<rparr>"

text \<open>A state with pruned current domains and one assigned variable.\<close>

definition mrv_store :: store where
  "mrv_store =
     [new_Variable ''V11'' [1, 2, 3],
      (new_Variable ''V12'' [1, 2, 3])\<lparr>curdom := [1, 2]\<rparr>,
      (new_Variable ''V13'' [1, 2, 3])\<lparr>curdom := [2, 3]\<rparr>,
      (new_Variable ''V21'' [1, 2, 3])\<lparr>curdom := [1], assignedValue := Some 1\<rparr>]"

definition mrv_csp :: CSP where
  "mrv_csp = \<lparr>csp_name = ''3-Kenken'', csp_vars = [0, 1, 2, 3], csp_cons = []\<rparr>"

text \<open>The 1 by 1 grid with its only variable assigned.\<close>

definition done_store :: store where
  "done_store =
     [(new_Variable ''V11'' [1])\<lparr>assignedValue := Some 1\<rparr>]"

definition done_csp :: CSP where
  "done_csp =
     \<lparr>csp_name = ''1-Kenken'', csp_vars = [0],
      csp_cons = [\<lparr>cname = ''C(V11)'', scope = [0], sat_tuples = [[1]]\<rparr>,
              \<lparr>cname = ''C(V11)'', scope = [0], sat_tuples = [[1]]\<rparr>]\<rparr>"

text \<open>
  Two cells of a row under a binary not-equal constraint; \<open>busy_store\<close> has the first
  cell assigned, \<open>idle_store\<close> is the same store with that assignment cleared.
\<close>

definition ne3 :: "int list list" where
  "ne3 = [[1, 2], [1, 3], [2, 1], [2, 3], [3, 1], [3, 2]]"

definition lcv_store :: store where
  "lcv_store =
     [new_Variable ''V11'' [1, 2, 3],
      (new_Variable ''V12'' [1, 2, 3])\<lparr>curdom := [1, 2]\<rparr>]"

definition lcv_csp :: CSP where
  "lcv_csp =
     \<lparr>csp_name = ''3-Kenken'', csp_vars = [0, 1],
      csp_cons = [\<lparr>cname = ''C(V11,V12)'', scope = [0, 1], sat_tuples = ne3\<rparr>]\<rparr>"

definition busy_store :: store where
  "busy_store =
     [(new_Variable ''V11'' [1, 2, 3])\<lparr>curdom := [1], assignedValue := Some 1\<rparr>,
      (new_Variable ''V12'' [1, 2, 3])\<lparr>curdom := [2, 3]\<rparr>]"

definition idle_store :: store where
  "idle_store =
     [(new_Variable ''V11'' [1, 2, 3])\<lparr>curdom := [1]\<rparr>,
      (new_Variable ''V12'' [1, 2, 3])\<lparr>curdom := [2, 3]\<rparr>]"

subsection \<open>Notions used for the compiled models\<close>

text \<open>
  The specification's subtraction relation of an ordering \<open>(p0, p1, \<dots>, pk)\<close>:
  \<open>p0 - p1 - \<dots> - pk\<close> equals the target.
\<close>

definition subtracts_to :: "int list \<Rightarrow> int \<Rightarrow> bool" where
  "subtracts_to r target = (case r of [] \<Rightarrow> False | p0 # ps \<Rightarrow> p0 - sum_list ps = target)"

text \<open>
  An assignment of values to variables satisfies a constraint when the values of the
  scope, in scope order, form one of the satisfying tuples.
\<close>

definition satisfies :: "(ref \<Rightarrow> int) \<Rightarrow> Constraint \<Rightarrow> bool" where
  "satisfies \<sigma> c = (map \<sigma> (scope c) \<in> set (sat_tuples c))"

text \<open>
  Well-formedness of a build state (store, board, constraints): the board refers to
  objects of the store, and so does a constraint, whose tuples take each component from
  the full domain of the scope variable at that position (the invariant of section 3 of
  the specification).
\<close>

definition board_ok :: "store \<Rightarrow> ref list list \<Rightarrow> bool" where
  "board_ok h vars = (\<forall>a\<in>set (concat vars). a < length h)"

definition con_ok :: "store \<Rightarrow> Constraint \<Rightarrow> bool" where
  "con_ok h con =
     ((\<forall>a\<in>set (scope con). a < length h) \<and>
      (\<forall>t\<in>set (sat_tuples con). list_all2 (\<lambda>x a. x \<in> set (domain (h ! a))) t (scope con)))"

subsection \<open>Example inputs of the compilers\<close>

text \<open>
  The examples hold no division cage, so the float operations are never called: they
  are instantiated with operations that always raise. The printed form of a variable is
  instantiated with its name.
\<close>

definition no_floats :: "unit float_ops" where
  "no_floats = \<lparr>int_truediv = (\<lambda>a b. Inl OverflowError), float_truediv = (\<lambda>x b. Inl OverflowError),
                float_eq_int = (\<lambda>x v. False)\<rparr>"

text \<open>The board of a 7 by 7 puzzle and the subtraction cage over its first two cells.\<close>

definition board7 :: "store \<times> ref list list" where
  "board7 = new_board [] [1, 2, 3, 4, 5, 6, 7] [1, 2, 3, 4, 5, 6, 7] []"

definition sub_cage :: "int list" where
  "sub_cage = [11, 12, 4, 1]"

definition cage7 :: Constraint where
  "cage7 = \<lparr>cname = ''Cage(V11,V12)'', scope = [0, 1],
            sat_tuples = [[1, 5], [2, 6], [3, 7], [5, 1], [6, 2], [7, 3]]\<rparr>"

text \<open>
  The grid model of size 2: for this size the binary and the n-ary model hold the same
  four constraints.
\<close>

definition grid2_store :: store where
  "grid2_store =
     [new_Variable ''V11'' [1, 2], new_Variable ''V12'' [1, 2],
      new_Variable ''V21'' [1, 2], new_Variable ''V22'' [1, 2]]"

definition grid2_board :: "ref list list" where
  "grid2_board = [[0, 1], [2, 3]]"

definition grid2_csp :: CSP where
  "grid2_csp =
     \<lparr>csp_name = ''2-Kenken'', csp_vars = [0, 1, 2, 3],
      csp_cons =
        [\<lparr>cname = ''C(V11,V12)'', scope = [0, 1], sat_tuples = [[1, 2], [2, 1]]\<rparr>,
         \<lparr>cname = ''C(V11,V21)'', scope = [0, 2], sat_tuples = [[1, 2], [2, 1]]\<rparr>,
         \<lparr>cname = ''C(V21,V22)'', scope = [2, 3], sat_tuples = [[1, 2], [2, 1]]\<rparr>,
         \<lparr>cname = ''C(V12,V22)'', scope = [1, 3], sat_tuples = [[1, 2], [2, 1]]\<rparr>]\<rparr>"

text \<open>
  Two assignments to the nine cells of a 3 by 3 board, by address: a Latin square, and
  the same with the last cell changed so that the last row and column repeat a value.
\<close>

definition latin3 :: "ref \<Rightarrow> int" where
  "latin3 a = [1, 2, 3, 2, 3, 1, 3, 1, 2] ! a"

definition clash3 :: "ref \<Rightarrow> int" where
  "clash3 a = [1, 2, 3, 2, 3, 1, 3, 1, 3] ! a"

text \<open>
  The 2 by 2 puzzle with the cage \<^verbatim>\<open>[11, 12, 3, 0]\<close> and the forced row
  \<^verbatim>\<open>[11, 1]\<close>: the store, the board and the grid constraints are the same whether
  the forced row comes before the cage row (\<open>forced_csp\<close>) or after it
  (\<open>stale_csp\<close>); the cage constraint differs.
\<close>

definition forced_store :: store where
  "forced_store =
     [new_Variable ''V11'' [1, 2], new_Variable ''V12'' [1, 2],
      new_Variable ''V21'' [1, 2], new_Variable ''V22'' [1, 2],
      new_Variable ''V11'' [1]]"

definition forced_board :: "ref list list" where
  "forced_board = [[4, 1], [2, 3]]"

definition forced_grid_cons :: "Constraint list" where
  "forced_grid_cons =
     [\<lparr>cname = ''C(V11,V12)'', scope = [4, 1], sat_tuples = [[1, 2]]\<rparr>,
      \<lparr>cname = ''C(V11,V21)'', scope = [4, 2], sat_tuples = [[1, 2]]\<rparr>,
      \<lparr>cname = ''C(V21,V22)'', scope = [2, 3], sat_tuples = [[1, 2], [2, 1]]\<rparr>,
      \<lparr>cname = ''C(V12,V22)'', scope = [1, 3], sat_tuples = [[1, 2], [2, 1]]\<rparr>]"

definition forced_csp :: CSP where
  "forced_csp =
     \<lparr>csp_name = ''2-Kenken'', csp_vars = [4, 1, 2, 3],
      csp_cons = \<lparr>cname = ''Cage(V11,V12)'', scope = [4, 1], sat_tuples = [[1, 2]]\<rparr> #
                 forced_grid_cons\<rparr>"

definition forced_pre :: "int list list" where
  "forced_pre = [[2]]"

definition forced_post :: "int list list" where
  "forced_post = [[11, 12, 3, 0]]"

definition stale_csp :: CSP where
  "stale_csp =
     \<lparr>csp_name = ''2-Kenken'', csp_vars = [4, 1, 2, 3],
      csp_cons = \<lparr>cname = ''Cage(V11,V12)'', scope = [0, 1], sat_tuples = [[1, 2], [2, 1]]\<rparr> #
                 forced_grid_cons\<rparr>"

section \<open>Properties of the ordering heuristics\<close>

subsection \<open>The loops of ord_mrv and ord_dh\<close>

text \<open>
  The loop of \<^verbatim>\<open>ord_mrv\<close> either keeps its accumulator, when no variable is strictly
  smaller, or ends at the first position holding the least size.
\<close>

lemma mrv_loop_spec:
  "mrv_loop h vs (m, x) = (m', x') \<Longrightarrow>
     (m' = m \<and> x' = x \<and> (\<forall>v\<in>set vs. m \<le> enat (cur_domain_size (h ! v)))) \<or>
     (\<exists>i<length vs. x' = Some (vs ! i) \<and> m' = enat (cur_domain_size (h ! (vs ! i))) \<and> m' < m \<and>
        (\<forall>v\<in>set vs. m' \<le> enat (cur_domain_size (h ! v))) \<and>
        (\<forall>j<i. m' < enat (cur_domain_size (h ! (vs ! j)))))"
proof (induction vs arbitrary: m x)
  case Nil
  then show ?case by simp
next
  case (Cons v vs)
  let ?s = "\<lambda>u. enat (cur_domain_size (h ! u))"
  show ?case
  proof (cases "?s v < m")
    case True
    with Cons.prems have run: "mrv_loop h vs (?s v, Some v) = (m', x')"
      by (simp add: Let_def)
    from Cons.IH [OF run] show ?thesis
    proof (elim disjE conjE exE)
      assume a: "m' = ?s v" "x' = Some v" "\<forall>u\<in>set vs. ?s v \<le> ?s u"
      have "0 < length (v # vs) \<and> x' = Some ((v # vs) ! 0) \<and> m' = ?s ((v # vs) ! 0) \<and> m' < m \<and>
        (\<forall>u\<in>set (v # vs). m' \<le> ?s u) \<and> (\<forall>j<0. m' < ?s ((v # vs) ! j))"
        using a True by simp
      then show ?thesis by blast
    next
      fix i
      assume a: "i < length vs" "x' = Some (vs ! i)" "m' = ?s (vs ! i)" "m' < ?s v"
        "\<forall>u\<in>set vs. m' \<le> ?s u" "\<forall>j<i. m' < ?s (vs ! j)"
      have lt: "\<forall>j<Suc i. m' < ?s ((v # vs) ! j)"
      proof (intro allI impI)
        fix j assume "j < Suc i"
        then show "m' < ?s ((v # vs) ! j)" using a(4,6) by (cases j) auto
      qed
      have mm: "m' < m" using a(4) True by (rule less_trans)
      have "Suc i < length (v # vs) \<and> x' = Some ((v # vs) ! Suc i) \<and> m' = ?s ((v # vs) ! Suc i) \<and> m' < m \<and>
        (\<forall>u\<in>set (v # vs). m' \<le> ?s u)"
        using a mm by (auto simp: less_imp_le)
      with lt show ?thesis by blast
    qed
  next
    case False
    with Cons.prems have run: "mrv_loop h vs (m, x) = (m', x')"
      by (simp add: Let_def)
    from False have ge: "m \<le> ?s v" by simp
    from Cons.IH [OF run] show ?thesis
    proof (elim disjE conjE exE)
      assume a: "m' = m" "x' = x" "\<forall>u\<in>set vs. m \<le> ?s u"
      then show ?thesis using ge by simp
    next
      fix i
      assume a: "i < length vs" "x' = Some (vs ! i)" "m' = ?s (vs ! i)" "m' < m"
        "\<forall>u\<in>set vs. m' \<le> ?s u" "\<forall>j<i. m' < ?s (vs ! j)"
      have mv: "m' < ?s v" using a(4) ge by (rule less_le_trans)
      have lt: "\<forall>j<Suc i. m' < ?s ((v # vs) ! j)"
      proof (intro allI impI)
        fix j assume "j < Suc i"
        then show "m' < ?s ((v # vs) ! j)" using mv a(6) by (cases j) auto
      qed
      have "Suc i < length (v # vs) \<and> x' = Some ((v # vs) ! Suc i) \<and> m' = ?s ((v # vs) ! Suc i) \<and> m' < m \<and>
        (\<forall>u\<in>set (v # vs). m' \<le> ?s u)"
        using a mv by (auto simp: less_imp_le)
      with lt show ?thesis by blast
    qed
  qed
qed

text \<open>The counters of \<^verbatim>\<open>ord_dh\<close> never decrease, so the first candidate beats \<open>-1\<close>.\<close>

lemma dh_scan_ge: "d \<le> dh_scan v us seen d"
proof (induction us arbitrary: seen d)
  case Nil show ?case by simp
next
  case (Cons u us)
  have "d + 1 \<le> dh_scan v us (seen @ [u]) (d + 1)" by (rule Cons.IH)
  moreover have "d \<le> dh_scan v us seen d" by (rule Cons.IH)
  ultimately show ?case by simp
qed

lemma dh_degree_ge: "d \<le> dh_degree h v cs d"
proof (induction cs arbitrary: d)
  case Nil show ?case by simp
next
  case (Cons c cs)
  have "d \<le> dh_scan v (get_unasgn_vars h c) [] d" by (rule dh_scan_ge)
  also have "\<dots> \<le> dh_degree h v cs (dh_scan v (get_unasgn_vars h c) [] d)" by (rule Cons.IH)
  finally show ?case by simp
qed

lemma dh_loop_member:
  "dh_loop h csp vs (m, x) = (m', x') \<Longrightarrow> x' = x \<or> (\<exists>v\<in>set vs. x' = Some v)"
proof (induction vs arbitrary: m x)
  case Nil then show ?case by simp
next
  case (Cons v vs)
  then show ?case by (fastforce simp: Let_def split: if_splits)
qed

lemma dh_loop_found:
  "dh_loop h csp vs (m, x) = (m', x') \<Longrightarrow> m < 0 \<Longrightarrow> vs \<noteq> [] \<Longrightarrow> \<exists>v\<in>set vs. x' = Some v"
proof (cases vs)
  case Nil
  assume "vs \<noteq> []" with Nil show ?thesis by simp
next
  case (Cons v rest)
  assume run: "dh_loop h csp vs (m, x) = (m', x')" and neg: "m < 0"
  have "0 \<le> dh_degree h v (get_cons_with_var csp v) 0" by (rule dh_degree_ge)
  with neg have gt: "dh_degree h v (get_cons_with_var csp v) 0 > m" by simp
  with run Cons have "dh_loop h csp rest (dh_degree h v (get_cons_with_var csp v) 0, Some v) = (m', x')"
    by (simp add: Let_def)
  from dh_loop_member [OF this] show ?thesis using Cons by auto
qed

subsection \<open>The loops of val_lcv\<close>

lemma lcv_vals_count:
  "lcv_vals h c a xs n = n + length (filter (\<lambda>x. \<not> has_support h c a x) xs)"
  by (induction xs arbitrary: n) simp_all

lemma lcv_vars_count:
  "lcv_vars h c as n =
     n + length [(a, x). a \<leftarrow> as, x \<leftarrow> cur_domain (h ! a), \<not> has_support h c a x]"
proof (induction as arbitrary: n)
  case Nil show ?case by simp
next
  case (Cons a as)
  have "length (concat (map (\<lambda>x. if \<not> has_support h c a x then [(a, x)] else []) xs)) =
        length (filter (\<lambda>x. \<not> has_support h c a x) xs)" for xs
    by (induction xs) simp_all
  then show ?case by (simp add: Cons.IH lcv_vals_count)
qed

lemma lcv_cons_count:
  "lcv_cons h cs n =
     n + length [(c, a, x). c \<leftarrow> cs, a \<leftarrow> get_unasgn_vars h c, x \<leftarrow> cur_domain (h ! a),
                            \<not> has_support h c a x]"
proof (induction cs arbitrary: n)
  case Nil show ?case by simp
next
  case (Cons c cs)
  have "length (concat (map (\<lambda>a. concat (map (\<lambda>x. if \<not> has_support h c a x then [(c, a, x)] else [])
                                       (cur_domain (h ! a)))) as)) =
        length (concat (map (\<lambda>a. concat (map (\<lambda>x. if \<not> has_support h c a x then [(a, x)] else [])
                                       (cur_domain (h ! a)))) as))" for as
  proof (induction as)
    case Nil show ?case by simp
  next
    case (Cons a as)
    have "length (concat (map (\<lambda>x. if \<not> has_support h c a x then [(c, a, x)] else []) xs)) =
          length (concat (map (\<lambda>x. if \<not> has_support h c a x then [(a, x)] else []) xs))" for xs
      by (induction xs) simp_all
    with Cons show ?case by simp
  qed
  then show ?case by (simp add: Cons.IH lcv_vars_count)
qed

lemma concat_map_guard:
  "concat (map (\<lambda>a. if P a then f a else []) xs) = concat (map f (filter P xs))"
  by (induction xs) simp_all

lemma filter_neq_unasgn:
  assumes "var < length h"
  shows "filter (\<lambda>a. a \<noteq> var) (get_unasgn_vars (tentative h var d) c) =
         get_unasgn_vars (tentative h var d) c"
proof -
  have "assignedValue (tentative h var d ! var) = Some d"
    using assms by (simp add: tentative_def)
  then have "\<forall>a\<in>set (get_unasgn_vars (tentative h var d) c). a \<noteq> var"
    by (auto simp: get_unasgn_vars_def)
  then show ?thesis by (simp add: filter_id_conv)
qed

lemma lcv_cons_prune_count:
  assumes "var < length h"
  shows "lcv_cons (tentative h var d) (get_cons_with_var csp var) 0 = prune_count h csp var d"
proof -
  have "lost_support (tentative h var d) csp var =
        [(c, a, x). c \<leftarrow> get_cons_with_var csp var, a \<leftarrow> get_unasgn_vars (tentative h var d) c,
                    x \<leftarrow> cur_domain (tentative h var d ! a), \<not> has_support (tentative h var d) c a x]"
    unfolding lost_support_def
    by (simp add: concat_map_guard filter_neq_unasgn [OF assms])
  then show ?thesis by (simp add: prune_count_def lcv_cons_count)
qed

text \<open>One probe assigns and unassigns: whatever was assigned before is cleared.\<close>

lemma tentative_clear: "tentative (clear h var) var d = tentative h var d"
  by (cases "var < length h") (simp_all add: tentative_def clear_def list_update_beyond not_less)

lemma clear_clear: "clear (clear h var) var = clear h var"
  by (cases "var < length h") (simp_all add: clear_def list_update_beyond not_less)

lemma clear_tentative: "(tentative h var d)[var := unassign d' (tentative h var d ! var)] = clear h var"
  by (cases "var < length h") (simp_all add: tentative_def clear_def unassign_def list_update_beyond not_less)

lemma curdom_clear: "curdom (clear h var ! var) = curdom (h ! var)"
  by (cases "var < length h") (simp_all add: clear_def list_update_beyond not_less)

lemma clear_unassigned: "assignedValue (h ! var) = None \<Longrightarrow> clear h var = h"
proof -
  assume a: "assignedValue (h ! var) = None"
  have "(h ! var)\<lparr>assignedValue := None\<rparr> = h ! var"
    using a by (cases "h ! var") simp
  then show ?thesis by (simp add: clear_def)
qed

lemma lcv_loop_run:
  assumes "set ds \<subseteq> set (curdom (h ! var))"
  shows "lcv_loop h csp var ds vo =
           Some (if ds = [] then h else clear h var,
                 vo @ map (\<lambda>d. (d, lcv_cons (tentative h var d) (get_cons_with_var csp var) 0)) ds)"
  using assms
proof (induction ds arbitrary: h vo)
  case Nil
  show ?case by simp
next
  case (Cons d ds)
  from Cons.prems have din: "d \<in> set (curdom (h ! var))" by simp
  have sub: "set ds \<subseteq> set (curdom (clear h var ! var))"
    using Cons.prems by (simp add: curdom_clear)
  have as: "assign d (h ! var) = Some ((h ! var)\<lparr>assignedValue := Some d\<rparr>)"
    using din by (simp add: assign_def)
  have step: "lcv_loop h csp var (d # ds) vo =
        lcv_loop (clear h var) csp var ds
          (vo @ [(d, lcv_cons (tentative h var d) (get_cons_with_var csp var) 0)])"
    using clear_tentative [of h var d d]
    by (simp add: as Let_def tentative_def)
  show ?case
    unfolding step Cons.IH [OF sub]
    by (simp add: tentative_clear clear_clear)
qed

text \<open>Sorting the pairs by their second component sorts the values by their count.\<close>

lemma insort_pair_image:
  "insort_key snd (d, f d) (map (\<lambda>d. (d, f d)) xs) = map (\<lambda>d. (d, f d)) (insort_key f d xs)"
  by (induction xs) simp_all

lemma sort_pairs: "sort_key snd (map (\<lambda>d. (d, f d)) xs) = map (\<lambda>d. (d, f d)) (sort_key f xs)"
  by (induction xs) (simp_all add: insort_pair_image)

lemma map_fst_sort_pairs: "map fst (sort_key snd (map (\<lambda>d. (d, f d)) xs)) = sort_key f xs"
  by (simp add: sort_pairs comp_def)

lemma val_lcv_run:
  "val_lcv h csp var =
     Some (if cur_domain (h ! var) = [] then h else clear h var,
           sort_key (\<lambda>d. lcv_cons (tentative h var d) (get_cons_with_var csp var) 0)
                    (cur_domain (h ! var)))"
proof -
  have "set (cur_domain (h ! var)) \<subseteq> set (curdom (h ! var))" by (simp add: cur_domain_def)
  from lcv_loop_run [OF this, of csp "[]"] show ?thesis
    by (simp add: val_lcv_def map_fst_sort_pairs)
qed

subsection \<open>Claims on the heuristics\<close>

text \<open>
  Claim C1. The claim: \<^verbatim>\<open>ord_dh\<close> counts each other unassigned variable once over all
  constraints touching the candidate and returns a variable of maximal such degree.
  The code empties \<^verbatim>\<open>seenVars\<close> for every constraint, so a neighbour sharing two
  constraints with the candidate is counted twice. The example state is the model of the
  3 by 3 puzzle with one cage, with the cell (1,3) assigned. There the candidate at
  address 0 (cell 1,1) gets the count 4 from the code although it has the three distinct
  neighbours 1, 3 and 6, and it is returned although the unassigned variable at address 3
  (cell 2,1) has four distinct neighbours.
\<close>

theorem ord_dh_double_counts:
  "kenken_csp_model no_floats name [] [[3], [11, 12, 3, 0]] =
     Inr (dh_store[2 := new_Variable ''V13'' [1, 2, 3]], dh_csp, [[0, 1, 2], [3, 4, 5], [6, 7, 8]]) \<and>
   ord_dh dh_store dh_csp = Some 0 \<and>
   dh_degree dh_store 0 (get_cons_with_var dh_csp 0) 0 = 4 \<and>
   distinct_neighbours dh_store dh_csp 0 = [1, 3, 6] \<and>
   3 \<in> set (get_all_unasgn_vars dh_store dh_csp) \<and>
   distinct_neighbours dh_store dh_csp 3 = [0, 6, 4, 5]"
  by code_simp




text \<open>
  Claim C7. For every problem state and every variable \<^verbatim>\<open>var\<close> of the store,
  \<^verbatim>\<open>val_lcv\<close> returns the current domain of \<^verbatim>\<open>var\<close> in ascending order of the
  pruning count, and values of equal pruning count keep the order they have in the
  current domain (the sort is stable).
\<close>

theorem val_lcv_order:
  assumes "var < length h"
  shows "\<exists>h' xs. val_lcv h csp var = Some (h', xs) \<and>
           mset xs = mset (cur_domain (h ! var)) \<and>
           sorted (map (prune_count h csp var) xs) \<and>
           (\<forall>k. filter (\<lambda>d. prune_count h csp var d = k) xs =
                filter (\<lambda>d. prune_count h csp var d = k) (cur_domain (h ! var)))"
proof -
  have eq: "(\<lambda>d. lcv_cons (tentative h var d) (get_cons_with_var csp var) 0) =
            prune_count h csp var"
    by (rule ext) (rule lcv_cons_prune_count [OF assms])
  show ?thesis
    by (simp add: val_lcv_run eq sort_key_stable)
qed

text \<open>Claim C7 at the two-cell example: the counts of 3, 1 and 2 are 0, 1 and 1.\<close>

theorem val_lcv_order_witness:
  "(0::nat) < length lcv_store \<and>
   val_lcv lcv_store lcv_csp 0 = Some (lcv_store, [3, 1, 2]) \<and>
   map (prune_count lcv_store lcv_csp 0) [3, 1, 2] = [0, 1, 1] \<and>
   cur_domain (lcv_store ! 0) = [1, 2, 3] \<and>
   (\<exists>h' xs. val_lcv lcv_store lcv_csp 0 = Some (h', xs) \<and>
           mset xs = mset (cur_domain (lcv_store ! 0)) \<and>
           sorted (map (prune_count lcv_store lcv_csp 0) xs) \<and>
           (\<forall>k. filter (\<lambda>d. prune_count lcv_store lcv_csp 0 d = k) xs =
                filter (\<lambda>d. prune_count lcv_store lcv_csp 0 d = k) (cur_domain (lcv_store ! 0))))"
proof -
  have h: "(0::nat) < length lcv_store"
    by (simp add: lcv_store_def)
  have r: "val_lcv lcv_store lcv_csp 0 = Some (lcv_store, [3, 1, 2])"
    by code_simp
  have p: "map (prune_count lcv_store lcv_csp 0) [3, 1, 2] = [0, 1, 1]"
    by code_simp
  have c: "cur_domain (lcv_store ! 0) = [1, 2, 3]"
    by code_simp
  from h r p c val_lcv_order [OF h, of lcv_csp] show ?thesis by blast
qed

text \<open>
  Claim C8. In every problem state with an unassigned variable, \<^verbatim>\<open>ord_mrv\<close> returns
  an unassigned variable of the problem whose current-domain size is at most that of
  every unassigned variable, and every unassigned variable iterated before it has a
  strictly larger current domain: among the smallest, the first one wins.
\<close>

theorem ord_mrv_first_minimal:
  assumes "\<exists>v\<in>set (csp_vars csp). assignedValue (h ! v) = None"
  shows "\<exists>i<length (get_all_unasgn_vars h csp).
           ord_mrv h csp = Some (get_all_unasgn_vars h csp ! i) \<and>
           get_all_unasgn_vars h csp ! i \<in> set (csp_vars csp) \<and>
           assignedValue (h ! (get_all_unasgn_vars h csp ! i)) = None \<and>
           (\<forall>u\<in>set (csp_vars csp). assignedValue (h ! u) = None \<longrightarrow>
              cur_domain_size (h ! (get_all_unasgn_vars h csp ! i)) \<le> cur_domain_size (h ! u)) \<and>
           (\<forall>j<i. cur_domain_size (h ! (get_all_unasgn_vars h csp ! i))
                     < cur_domain_size (h ! (get_all_unasgn_vars h csp ! j)))"
proof -
  let ?us = "get_all_unasgn_vars h csp"
  from assms have ne: "?us \<noteq> []"
    by (auto simp: get_all_unasgn_vars_def filter_empty_conv)
  obtain m' x' where run: "mrv_loop h ?us (\<infinity>, None) = (m', x')"
    by (cases "mrv_loop h ?us (\<infinity>, None)") blast
  from ne obtain u where u: "u \<in> set ?us" by (cases ?us) auto
  from mrv_loop_spec [OF run] u
  obtain i where i: "i < length ?us" "x' = Some (?us ! i)"
      "m' = enat (cur_domain_size (h ! (?us ! i)))"
      "\<forall>v\<in>set ?us. m' \<le> enat (cur_domain_size (h ! v))"
      "\<forall>j<i. m' < enat (cur_domain_size (h ! (?us ! j)))"
    by auto
  from i(1) have mem: "?us ! i \<in> set ?us" by simp
  then have a: "?us ! i \<in> set (csp_vars csp)" and b: "assignedValue (h ! (?us ! i)) = None"
    by (simp_all add: get_all_unasgn_vars_def)
  have c: "\<forall>u\<in>set (csp_vars csp). assignedValue (h ! u) = None \<longrightarrow>
              cur_domain_size (h ! (?us ! i)) \<le> cur_domain_size (h ! u)"
    using i(3,4) by (simp add: get_all_unasgn_vars_def)
  have d: "\<forall>j<i. cur_domain_size (h ! (?us ! i)) < cur_domain_size (h ! (?us ! j))"
    using i(3,5) by simp
  have "ord_mrv h csp = Some (?us ! i)"
    using run i(2) by (simp add: ord_mrv_def)
  with i(1) a b c d show ?thesis by blast
qed

text \<open>Claim C8 at the example: the sizes are 3, 2 and 2, and the first of size 2 wins.\<close>

theorem ord_mrv_first_minimal_witness:
  "(\<exists>v\<in>set (csp_vars mrv_csp). assignedValue (mrv_store ! v) = None) \<and>
   get_all_unasgn_vars mrv_store mrv_csp = [0, 1, 2] \<and>
   ord_mrv mrv_store mrv_csp = Some 1 \<and>
   (\<exists>i<length (get_all_unasgn_vars mrv_store mrv_csp).
           ord_mrv mrv_store mrv_csp = Some (get_all_unasgn_vars mrv_store mrv_csp ! i) \<and>
           get_all_unasgn_vars mrv_store mrv_csp ! i \<in> set (csp_vars mrv_csp) \<and>
           assignedValue (mrv_store ! (get_all_unasgn_vars mrv_store mrv_csp ! i)) = None \<and>
           (\<forall>u\<in>set (csp_vars mrv_csp). assignedValue (mrv_store ! u) = None \<longrightarrow>
              cur_domain_size (mrv_store ! (get_all_unasgn_vars mrv_store mrv_csp ! i))
                \<le> cur_domain_size (mrv_store ! u)) \<and>
           (\<forall>j<i. cur_domain_size (mrv_store ! (get_all_unasgn_vars mrv_store mrv_csp ! i))
                     < cur_domain_size (mrv_store ! (get_all_unasgn_vars mrv_store mrv_csp ! j))))"
proof -
  have h: "\<exists>v\<in>set (csp_vars mrv_csp). assignedValue (mrv_store ! v) = None"
    by (simp add: mrv_csp_def mrv_store_def new_Variable_def)
  have us: "get_all_unasgn_vars mrv_store mrv_csp = [0, 1, 2]"
    by code_simp
  have r: "ord_mrv mrv_store mrv_csp = Some 1"
    by code_simp
  from h us r ord_mrv_first_minimal [OF h] show ?thesis by blast
qed

text \<open>
  Claim C9. \<^verbatim>\<open>ord_dh\<close> and \<^verbatim>\<open>ord_mrv\<close> each return an unassigned variable of the
  problem when one remains, and \<^verbatim>\<open>None\<close> when none remains.
\<close>

theorem ord_heuristics_result:
  "((\<exists>v\<in>set (csp_vars csp). assignedValue (h ! v) = None) \<longrightarrow>
      (\<exists>v\<in>set (csp_vars csp). assignedValue (h ! v) = None \<and> ord_dh h csp = Some v) \<and>
      (\<exists>v\<in>set (csp_vars csp). assignedValue (h ! v) = None \<and> ord_mrv h csp = Some v)) \<and>
   ((\<forall>v\<in>set (csp_vars csp). assignedValue (h ! v) \<noteq> None) \<longrightarrow>
      ord_dh h csp = None \<and> ord_mrv h csp = None)"
proof (intro conjI impI)
  let ?us = "get_all_unasgn_vars h csp"
  assume ex: "\<exists>v\<in>set (csp_vars csp). assignedValue (h ! v) = None"
  then have ne: "?us \<noteq> []"
    by (auto simp: get_all_unasgn_vars_def filter_empty_conv)
  obtain m' x' where run: "dh_loop h csp ?us (- 1, None) = (m', x')"
    by (cases "dh_loop h csp ?us (- 1, None)") blast
  from dh_loop_found [OF run _ ne] obtain v where v: "v \<in> set ?us" "x' = Some v" by auto
  from v(1) have "v \<in> set (csp_vars csp)" "assignedValue (h ! v) = None"
    by (simp_all add: get_all_unasgn_vars_def)
  moreover have "ord_dh h csp = Some v" using run v(2) by (simp add: ord_dh_def)
  ultimately show "\<exists>v\<in>set (csp_vars csp). assignedValue (h ! v) = None \<and> ord_dh h csp = Some v"
    by blast
  obtain m2 x2 where run2: "mrv_loop h ?us (\<infinity>, None) = (m2, x2)"
    by (cases "mrv_loop h ?us (\<infinity>, None)") blast
  from ne obtain u where u: "u \<in> set ?us" by (cases ?us) auto
  from mrv_loop_spec [OF run2] u obtain i where i: "i < length ?us" "x2 = Some (?us ! i)"
    by auto
  from i(1) have "?us ! i \<in> set ?us" by simp
  then have "?us ! i \<in> set (csp_vars csp)" "assignedValue (h ! (?us ! i)) = None"
    by (simp_all add: get_all_unasgn_vars_def)
  moreover have "ord_mrv h csp = Some (?us ! i)" using run2 i(2) by (simp add: ord_mrv_def)
  ultimately show "\<exists>v\<in>set (csp_vars csp). assignedValue (h ! v) = None \<and> ord_mrv h csp = Some v"
    by blast
next
  assume "\<forall>v\<in>set (csp_vars csp). assignedValue (h ! v) \<noteq> None"
  then have e: "get_all_unasgn_vars h csp = []"
    by (auto simp: get_all_unasgn_vars_def filter_empty_conv)
  show "ord_dh h csp = None" by (simp add: ord_dh_def e)
  show "ord_mrv h csp = None" by (simp add: ord_mrv_def e)
qed

text \<open>Claim C9 at a state with unassigned variables and at a state without.\<close>

theorem ord_heuristics_result_witness:
  "(\<exists>v\<in>set (csp_vars dh_csp). assignedValue (dh_store ! v) = None) \<and>
   ord_dh dh_store dh_csp = Some 0 \<and> ord_mrv dh_store dh_csp = Some 0 \<and>
   get_all_unasgn_vars done_store done_csp = [] \<and>
   ord_dh done_store done_csp = None \<and> ord_mrv done_store done_csp = None"
proof -
  have a: "\<exists>v\<in>set (csp_vars dh_csp). assignedValue (dh_store ! v) = None"
    by (simp add: dh_csp_def dh_store_def new_Variable_def)
  have b: "\<forall>v\<in>set (csp_vars done_csp). assignedValue (done_store ! v) \<noteq> None"
    by (simp add: done_csp_def done_store_def new_Variable_def)
  have c: "ord_dh dh_store dh_csp = Some 0" by code_simp
  have d: "ord_mrv dh_store dh_csp = Some 0" by code_simp
  have e: "get_all_unasgn_vars done_store done_csp = []" by code_simp
  from a b c d e ord_heuristics_result [of done_csp done_store] show ?thesis by blast
qed

section \<open>Properties of the model compilers\<close>

subsection \<open>Exceptions, indexing and the construction loops\<close>

lemma and_then_Inr [simp]: "and_then (Inr x) f = f x"
  by (simp add: and_then_def)

lemma and_then_Inl [simp]: "and_then (Inl e) f = Inl e"
  by (simp add: and_then_def)

lemma and_then_eq_Inr:
  "and_then m f = Inr y \<longleftrightarrow> (\<exists>x. m = Inr x \<and> f x = Inr y)"
  by (cases m) simp_all

lemma map_err_total:
  "\<forall>x\<in>set xs. f x = Inr (g x) \<Longrightarrow> map_err f xs = Inr (map g xs)"
  by (induction xs) simp_all

lemma map_err_length: "map_err f xs = Inr ys \<Longrightarrow> length ys = length xs"
  by (induction xs arbitrary: ys) (auto simp: and_then_eq_Inr)

lemma map_err_nth:
  "map_err f xs = Inr ys \<Longrightarrow> i < length xs \<Longrightarrow> f (xs ! i) = Inr (ys ! i)"
proof (induction xs arbitrary: ys i)
  case Nil then show ?case by simp
next
  case (Cons x xs)
  then show ?case by (cases i) (auto simp: and_then_eq_Inr)
qed

lemma py_index_bound: "py_index xs i = Inr k \<Longrightarrow> k < length xs"
  by (auto simp: py_index_def split: if_splits)

lemma py_index_length: "length xs = length ys \<Longrightarrow> py_index xs i = py_index ys i"
  by (simp add: py_index_def)

lemma py_index_nat: "py_index xs k = Inr m \<Longrightarrow> 0 \<le> k \<Longrightarrow> m = nat k"
  by (auto simp: py_index_def split: if_splits)

lemma getitem_nat: "k < length xs \<Longrightarrow> getitem xs (int k) = Inr (xs ! k)"
  by (simp add: getitem_def py_index_def)

lemma getitem_Cons_0 [simp]: "getitem (x # xs) 0 = Inr x"
  by (simp add: getitem_def py_index_def)

lemma getitem_in_set: "getitem xs i = Inr x \<Longrightarrow> x \<in> set xs"
  by (auto simp: getitem_def and_then_eq_Inr dest: py_index_bound)

lemma alloc_simp [simp]: "alloc h v = (h @ [v], length h)"
  by (simp add: alloc_def)

text \<open>The board loops allocate the cells row by row at consecutive addresses.\<close>

lemma new_row_run:
  "new_row h d vRow cols row =
     (h @ map (\<lambda>vCol. new_Variable (''V'' @ str_int vRow @ str_int vCol) d) cols,
      row @ [length h..<length h + length cols])"
proof (induction cols arbitrary: h row)
  case Nil show ?case by simp
next
  case (Cons c cols)
  have "[length h..<length h + Suc (length cols)] = length h # [Suc (length h)..<Suc (length h) + length cols]"
    by (simp add: upt_rec)
  then show ?case by (simp add: Cons.IH)
qed

lemma new_board_run:
  "new_board h d rows vars =
     (h @ concat (map (\<lambda>vRow. map (\<lambda>vCol. new_Variable (''V'' @ str_int vRow @ str_int vCol) d) d) rows),
      vars @ map (\<lambda>i. [length h + i * length d..<length h + i * length d + length d]) [0..<length rows])"
proof (induction rows arbitrary: h vars)
  case Nil show ?case by simp
next
  case (Cons r rows)
  have "map (\<lambda>i. [length h + i * length d..<length h + i * length d + length d]) [0..<Suc (length rows)] =
        [length h..<length h + length d] #
        map (\<lambda>i. [length h + length d + i * length d..<length h + length d + i * length d + length d]) [0..<length rows]"
    by (simp add: upt_rec [of 0] map_Suc_upt [symmetric] add.assoc del: upt_Suc)
  then show ?case by (simp add: Cons.IH new_row_run)
qed

lemma foldl_add_var: "csp_vars (foldl add_var csp vs) = csp_vars csp @ vs \<and>
   csp_cons (foldl add_var csp vs) = csp_cons csp \<and> csp_name (foldl add_var csp vs) = csp_name csp"
  by (induction vs arbitrary: csp) (simp_all add: add_var_def)

lemma foldl_add_constraint: "csp_cons (foldl add_constraint csp cs) = csp_cons csp @ cs \<and>
   csp_vars (foldl add_constraint csp cs) = csp_vars csp \<and>
   csp_name (foldl add_constraint csp cs) = csp_name csp"
  by (induction cs arbitrary: csp) (simp_all add: add_constraint_def)

lemma build_csp_fields:
  "csp_cons (build_csp n vars cs) = cs" "csp_vars (build_csp n vars cs) = concat vars"
  by (simp_all add: build_csp_def foldl_add_constraint foldl_add_var new_CSP_def)

subsection \<open>Orderings of a tuple and the subtraction cage\<close>

text \<open>The orderings that \<open>permutations\<close> lists are the lists with the same elements.\<close>

lemma picks_mset: "p \<in> set (picks xs) \<Longrightarrow> mset xs = add_mset (fst p) (mset (snd p))"
  by (induction xs arbitrary: p) auto

lemma picks_complete: "x \<in> set xs \<Longrightarrow> \<exists>ys. (x, ys) \<in> set (picks xs)"
proof (induction xs)
  case Nil then show ?case by simp
next
  case (Cons a xs)
  show ?case
  proof (cases "x = a")
    case True then show ?thesis by auto
  next
    case False
    with Cons.prems have "x \<in> set xs" by simp
    from Cons.IH [OF this] obtain ys where "(x, ys) \<in> set (picks xs)" ..
    then have "(x, a # ys) \<in> set (picks (a # xs))" by force
    then show ?thesis ..
  qed
qed

lemma permutations_sound: "r \<in> set (permutations xs) \<Longrightarrow> mset r = mset xs"
proof (induction xs arbitrary: r rule: permutations.induct)
  case 1 then show ?case by simp
next
  case (2 x xs)
  from "2.prems" have "r \<in> (\<Union>p\<in>set (picks (x # xs)). (#) (fst p) ` set (permutations (snd p)))"
    by (simp only: permutations.simps set_concat set_map image_image)
  then obtain p q where p: "p \<in> set (picks (x # xs))"
      and q: "q \<in> set (permutations (snd p))" and r: "r = fst p # q"
    by blast
  from "2.IH" [OF p q] have "mset q = mset (snd p)" .
  with picks_mset [OF p] r show ?case by simp
qed

lemma permutations_complete: "mset r = mset xs \<Longrightarrow> r \<in> set (permutations xs)"
proof (induction xs arbitrary: r rule: permutations.induct)
  case 1 then show ?case by simp
next
  case (2 x xs)
  from "2.prems" obtain y ys where r: "r = y # ys" by (cases r) auto
  from "2.prems" r have "y \<in># mset (x # xs)" by (metis list.set_intros(1) set_mset_mset)
  then have "y \<in> set (x # xs)" by simp
  from picks_complete [OF this] obtain rest where p: "(y, rest) \<in> set (picks (x # xs))" ..
  from picks_mset [OF p] "2.prems" r have "mset ys = mset rest" by simp
  from "2.IH" [OF p] this have "ys \<in> set (permutations rest)" by simp
  with r have "r \<in> (#) (fst (y, rest)) ` set (permutations (snd (y, rest)))"
    by (simp only: fst_conv snd_conv) (rule imageI)
  with p have "r \<in> (\<Union>p\<in>set (picks (x # xs)). (#) (fst p) ` set (permutations (snd p)))"
    by (rule UN_I)
  then show ?case
    by (simp only: permutations.simps set_concat set_map image_image)
qed

lemma set_permutations: "set (permutations xs) = {r. mset r = mset xs}"
  using permutations_sound permutations_complete by blast

lemma permutations_nonempty: "t \<noteq> [] \<Longrightarrow> r \<in> set (permutations t) \<Longrightarrow> r \<noteq> []"
  by (auto dest: permutations_sound)

text \<open>
  The loop over the orderings appends the tuple once per matching ordering, so the
  tuple is in the result iff some ordering matches.
\<close>

lemma sub_chain_sum: "sub_chain res xs = res - sum_list xs"
  by (induction xs arbitrary: res) simp_all

lemma sub_perms_run:
  "\<forall>r\<in>set rs. r \<noteq> [] \<Longrightarrow>
   sub_perms rs t val acc = Inr (acc @ replicate (length (filter (\<lambda>r. subtracts_to r val) rs)) t)"
proof (induction rs arbitrary: acc)
  case Nil show ?case by simp
next
  case (Cons r rs)
  then obtain p0 ps where r: "r = p0 # ps" by (cases r) auto
  from Cons.prems have rest: "\<forall>r\<in>set rs. r \<noteq> []" by simp
  have st: "subtracts_to r val \<longleftrightarrow> sub_chain p0 ps = val"
    by (simp add: r subtracts_to_def sub_chain_sum)
  have "sub_perms (r # rs) t val acc =
          (if sub_chain p0 ps = val then sub_perms rs t val (acc @ [t]) else sub_perms rs t val acc)"
    by (simp add: r Let_def)
  also have "\<dots> = Inr (acc @ replicate (length (filter (\<lambda>r. subtracts_to r val) (r # rs))) t)"
    by (simp add: Cons.IH [OF rest] st)
  finally show ?case .
qed

lemma sub_cage_tuples_run:
  "\<forall>t\<in>set ts. t \<noteq> [] \<Longrightarrow>
   \<exists>sat. cage_tuples ops 1 val ts acc = Inr sat \<and>
         set sat = set acc \<union> {t \<in> set ts. \<exists>r. mset r = mset t \<and> subtracts_to r val}"
proof (induction ts arbitrary: acc)
  case Nil show ?case by simp
next
  case (Cons t ts)
  from Cons.prems have t: "t \<noteq> []" and rest: "\<forall>t\<in>set ts. t \<noteq> []" by simp_all
  define n where "n = length (filter (\<lambda>r. subtracts_to r val) (permutations t))"
  have ne: "\<forall>r\<in>set (permutations t). r \<noteq> []"
    using permutations_nonempty [OF t] by blast
  have sp: "sub_perms (permutations t) t val acc = Inr (acc @ replicate n t)"
    unfolding n_def by (rule sub_perms_run [OF ne])
  have step: "cage_tuples ops 1 val (t # ts) acc = cage_tuples ops 1 val ts (acc @ replicate n t)"
    by (simp only: cage_tuples.simps sp and_then_Inr) simp
  have "n \<noteq> 0 \<longleftrightarrow> (\<exists>r\<in>set (permutations t). subtracts_to r val)"
    unfolding n_def by (simp only: length_0_conv filter_empty_conv) blast
  then have pos: "n \<noteq> 0 \<longleftrightarrow> (\<exists>r. mset r = mset t \<and> subtracts_to r val)"
    by (simp only: set_permutations) blast
  from Cons.IH [OF rest, of "acc @ replicate n t"] obtain sat
    where sat: "cage_tuples ops 1 val ts (acc @ replicate n t) = Inr sat"
      and set_sat: "set sat = set (acc @ replicate n t) \<union>
                      {t \<in> set ts. \<exists>r. mset r = mset t \<and> subtracts_to r val}"
    by blast
  have rep: "set (replicate n t) = (if \<exists>r. mset r = mset t \<and> subtracts_to r val then {t} else {})"
  proof (cases "n = 0")
    case True
    with pos show ?thesis by simp
  next
    case False
    with pos show ?thesis by (simp add: set_replicate_conv_if)
  qed
  have "set sat = set acc \<union> {u \<in> set (t # ts). \<exists>r. mset r = mset u \<and> subtracts_to r val}"
    unfolding set_sat set_append rep by auto
  with sat step show ?case by simp
qed

lemma product_lists_elems:
  "t \<in> set (product_lists ds) \<Longrightarrow> x \<in> set t \<Longrightarrow> \<exists>d\<in>set ds. x \<in> set d"
proof (induction ds arbitrary: t)
  case Nil then show ?case by simp
next
  case (Cons d ds)
  from Cons.prems(1) obtain y ys where t: "t = y # ys" "y \<in> set d" "ys \<in> set (product_lists ds)"
    by auto
  show ?case
  proof (cases "x = y")
    case True with t show ?thesis by simp
  next
    case False
    with Cons.prems(2) t have "x \<in> set ys" by simp
    from Cons.IH [OF t(3) this] show ?thesis by auto
  qed
qed

lemma product_lists_length: "t \<in> set (product_lists ds) \<Longrightarrow> length t = length ds"
  by (induction ds arbitrary: t) auto

lemma subtracts_to_bound:
  assumes "subtracts_to r target" "\<forall>x\<in>set r. 1 \<le> x \<and> x \<le> 9"
  shows "target \<le> 9"
proof -
  from assms(1) obtain p0 ps where r: "r = p0 # ps" and eq: "p0 - sum_list ps = target"
    by (cases r) (simp_all add: subtracts_to_def)
  from assms(2) r have "\<forall>x\<in>set ps. 0 \<le> x" by auto
  then have "0 \<le> sum_list ps" by (simp add: sum_list_nonneg)
  moreover from assms(2) r have "p0 \<le> 9" by simp
  ultimately show ?thesis using eq by simp
qed



subsection \<open>Row and column constraints\<close>

lemma product_single_right: "List.product xs [y] = map (\<lambda>x. (x, y)) xs"
  by (induction xs) simp_all

lemma line_items_row: "line_items index n True = map (\<lambda>j. (index, int j)) [0..<nat n]"
  by (simp add: line_items_def range_py_def comp_def)

lemma line_items_col: "line_items index n False = map (\<lambda>i. (int i, index)) [0..<nat n]"
  by (simp add: line_items_def range_py_def product_single_right comp_def)

lemma combinations2_subset: "p \<in> set (combinations2 xs) \<Longrightarrow> fst p \<in> set xs \<and> snd p \<in> set xs"
  by (induction xs) auto

lemma combinations2_distinct:
  "(\<forall>p\<in>set (combinations2 xs). f (fst p) \<noteq> f (snd p)) \<longleftrightarrow> distinct (map f xs)"
  by (induction xs) (auto simp: ball_Un)

text \<open>
  A binary constraint holds iff both values are in their domains and differ; the
  constraints of a line hold together iff the values of the line are distinct.
\<close>

lemma binary_ne_con_run:
  assumes "board_get vars (fst comb) = Inr a" "board_get vars (snd comb) = Inr b"
  shows "\<exists>c. binary_ne_con h vars comb = Inr c \<and> scope c = [a, b] \<and>
             set (sat_tuples c) =
               {t. \<exists>x y. t = [x, y] \<and> x \<in> set (domain (h ! a)) \<and> y \<in> set (domain (h ! b)) \<and> x \<noteq> y}"
proof -
  have "(\<lambda>t. [fst t, snd t]) ` {t \<in> A \<times> B. fst t \<noteq> snd t} =
        {t. \<exists>x y. t = [x, y] \<and> x \<in> A \<and> y \<in> B \<and> x \<noteq> y}" for A B :: "int set"
    by force
  then show ?thesis
    using assms
    by (simp add: binary_ne_con_def Let_def add_satisfying_tuples_def new_Constraint_def)
qed

lemma binary_ne_con_satisfies:
  assumes "board_get vars (fst comb) = Inr a" "board_get vars (snd comb) = Inr b"
      and "binary_ne_con h vars comb = Inr c"
  shows "satisfies \<sigma> c \<longleftrightarrow>
           \<sigma> a \<in> set (domain (h ! a)) \<and> \<sigma> b \<in> set (domain (h ! b)) \<and> \<sigma> a \<noteq> \<sigma> b"
  using binary_ne_con_run [OF assms(1,2), of h] assms(3)
  by (auto simp: satisfies_def)

lemma binary_ne_loop_run:
  assumes "\<forall>comb\<in>set combs. board_get vars (fst comb) = Inr (g (fst comb)) \<and>
                              board_get vars (snd comb) = Inr (g (snd comb))"
  shows "\<exists>cs. binary_ne_loop h vars combs acc = Inr (acc @ cs) \<and>
              (\<forall>\<sigma>. (\<forall>c\<in>set cs. satisfies \<sigma> c) \<longleftrightarrow>
                   (\<forall>comb\<in>set combs.
                      \<sigma> (g (fst comb)) \<in> set (domain (h ! g (fst comb))) \<and>
                      \<sigma> (g (snd comb)) \<in> set (domain (h ! g (snd comb))) \<and>
                      \<sigma> (g (fst comb)) \<noteq> \<sigma> (g (snd comb))))"
  using assms
proof (induction combs arbitrary: acc)
  case Nil
  show ?case by simp
next
  case (Cons comb combs)
  from Cons.prems have a: "board_get vars (fst comb) = Inr (g (fst comb))"
    and b: "board_get vars (snd comb) = Inr (g (snd comb))"
    and rest: "\<forall>comb\<in>set combs. board_get vars (fst comb) = Inr (g (fst comb)) \<and>
                              board_get vars (snd comb) = Inr (g (snd comb))"
    by simp_all
  from binary_ne_con_run [OF a b, of h] obtain c where c: "binary_ne_con h vars comb = Inr c"
    by blast
  note sat_c = binary_ne_con_satisfies [OF a b c]
  from Cons.IH [OF rest, of "acc @ [c]"] obtain cs
    where run: "binary_ne_loop h vars combs (acc @ [c]) = Inr ((acc @ [c]) @ cs)"
      and sat: "\<forall>\<sigma>. (\<forall>c\<in>set cs. satisfies \<sigma> c) \<longleftrightarrow>
                   (\<forall>comb\<in>set combs.
                      \<sigma> (g (fst comb)) \<in> set (domain (h ! g (fst comb))) \<and>
                      \<sigma> (g (snd comb)) \<in> set (domain (h ! g (snd comb))) \<and>
                      \<sigma> (g (fst comb)) \<noteq> \<sigma> (g (snd comb)))"
    by blast
  have "binary_ne_loop h vars (comb # combs) acc = Inr (acc @ c # cs)"
    using run by (simp add: c)
  moreover have "\<forall>\<sigma>. (\<forall>c\<in>set (c # cs). satisfies \<sigma> c) \<longleftrightarrow>
                   (\<forall>comb\<in>set (comb # combs).
                      \<sigma> (g (fst comb)) \<in> set (domain (h ! g (fst comb))) \<and>
                      \<sigma> (g (snd comb)) \<in> set (domain (h ! g (snd comb))) \<and>
                      \<sigma> (g (fst comb)) \<noteq> \<sigma> (g (snd comb)))"
    using sat sat_c by simp
  ultimately show ?case by blast
qed

lemma helper_binary_run:
  assumes "\<forall>p\<in>set (line_items index n isRow). board_get vars p = Inr (g p)"
  shows "\<exists>cs. helper_binary_ne_constraint h index n vars isRow = Inr cs \<and>
              (\<forall>\<sigma>. (\<forall>p\<in>set (line_items index n isRow). \<sigma> (g p) \<in> set (domain (h ! g p))) \<longrightarrow>
                   ((\<forall>c\<in>set cs. satisfies \<sigma> c) \<longleftrightarrow>
                    distinct (map (\<lambda>p. \<sigma> (g p)) (line_items index n isRow))))"
proof -
  let ?items = "line_items index n isRow"
  have pre: "\<forall>comb\<in>set (combinations2 ?items).
               board_get vars (fst comb) = Inr (g (fst comb)) \<and>
               board_get vars (snd comb) = Inr (g (snd comb))"
    using assms combinations2_subset by blast
  from binary_ne_loop_run [OF pre, of h "[]"] obtain cs
    where run: "binary_ne_loop h vars (combinations2 ?items) [] = Inr cs"
      and sat: "\<forall>\<sigma>. (\<forall>c\<in>set cs. satisfies \<sigma> c) \<longleftrightarrow>
                   (\<forall>comb\<in>set (combinations2 ?items).
                      \<sigma> (g (fst comb)) \<in> set (domain (h ! g (fst comb))) \<and>
                      \<sigma> (g (snd comb)) \<in> set (domain (h ! g (snd comb))) \<and>
                      \<sigma> (g (fst comb)) \<noteq> \<sigma> (g (snd comb)))"
    by auto
  have "(\<forall>c\<in>set cs. satisfies \<sigma> c) \<longleftrightarrow> distinct (map (\<lambda>p. \<sigma> (g p)) ?items)"
    if v: "\<forall>p\<in>set ?items. \<sigma> (g p) \<in> set (domain (h ! g p))" for \<sigma>
  proof -
    have "(\<forall>c\<in>set cs. satisfies \<sigma> c) \<longleftrightarrow>
          (\<forall>comb\<in>set (combinations2 ?items). \<sigma> (g (fst comb)) \<noteq> \<sigma> (g (snd comb)))"
      using sat v combinations2_subset by blast
    also have "\<dots> \<longleftrightarrow> distinct (map (\<lambda>p. \<sigma> (g p)) ?items)"
      by (rule combinations2_distinct)
    finally show ?thesis .
  qed
  with run show ?thesis
    by (simp add: helper_binary_ne_constraint_def)
qed

lemma binary_grid_loop_run:
  assumes "\<forall>index\<in>set idxs. \<forall>isRow. \<forall>p\<in>set (line_items index n isRow). board_get vars p = Inr (g p)"
  shows "\<exists>cs. binary_grid_loop h n vars idxs acc = Inr (acc @ cs) \<and>
              (\<forall>\<sigma>. (\<forall>index\<in>set idxs. \<forall>isRow. \<forall>p\<in>set (line_items index n isRow).
                       \<sigma> (g p) \<in> set (domain (h ! g p))) \<longrightarrow>
                   ((\<forall>c\<in>set cs. satisfies \<sigma> c) \<longleftrightarrow>
                    (\<forall>index\<in>set idxs. \<forall>isRow.
                       distinct (map (\<lambda>p. \<sigma> (g p)) (line_items index n isRow)))))"
  using assms
proof (induction idxs arbitrary: acc)
  case Nil
  show ?case by simp
next
  case (Cons index idxs)
  from Cons.prems have here: "\<forall>p\<in>set (line_items index n isRow). board_get vars p = Inr (g p)" for isRow
    by simp
  from Cons.prems have rest: "\<forall>index\<in>set idxs. \<forall>isRow. \<forall>p\<in>set (line_items index n isRow).
      board_get vars p = Inr (g p)"
    by simp
  from helper_binary_run [OF here, of h True] obtain rowCons
    where r: "helper_binary_ne_constraint h index n vars True = Inr rowCons"
      and rs: "\<forall>\<sigma>. (\<forall>p\<in>set (line_items index n True). \<sigma> (g p) \<in> set (domain (h ! g p))) \<longrightarrow>
                   ((\<forall>c\<in>set rowCons. satisfies \<sigma> c) \<longleftrightarrow>
                    distinct (map (\<lambda>p. \<sigma> (g p)) (line_items index n True)))"
    by blast
  from helper_binary_run [OF here, of h False] obtain colCons
    where c: "helper_binary_ne_constraint h index n vars False = Inr colCons"
      and cs: "\<forall>\<sigma>. (\<forall>p\<in>set (line_items index n False). \<sigma> (g p) \<in> set (domain (h ! g p))) \<longrightarrow>
                   ((\<forall>c\<in>set colCons. satisfies \<sigma> c) \<longleftrightarrow>
                    distinct (map (\<lambda>p. \<sigma> (g p)) (line_items index n False)))"
    by blast
  from Cons.IH [OF rest, of "acc @ rowCons @ colCons"] obtain tl
    where run: "binary_grid_loop h n vars idxs (acc @ rowCons @ colCons) = Inr ((acc @ rowCons @ colCons) @ tl)"
      and ts: "\<forall>\<sigma>. (\<forall>index\<in>set idxs. \<forall>isRow. \<forall>p\<in>set (line_items index n isRow).
                       \<sigma> (g p) \<in> set (domain (h ! g p))) \<longrightarrow>
                   ((\<forall>c\<in>set tl. satisfies \<sigma> c) \<longleftrightarrow>
                    (\<forall>index\<in>set idxs. \<forall>isRow.
                       distinct (map (\<lambda>p. \<sigma> (g p)) (line_items index n isRow))))"
    by blast
  have eq: "binary_grid_loop h n vars (index # idxs) acc = Inr (acc @ (rowCons @ colCons @ tl))"
    using run by (simp add: r c)
  have "(\<forall>c\<in>set (rowCons @ colCons @ tl). satisfies \<sigma> c) \<longleftrightarrow>
        (\<forall>index\<in>set (index # idxs). \<forall>isRow.
             distinct (map (\<lambda>p. \<sigma> (g p)) (line_items index n isRow)))"
    if v: "\<forall>index\<in>set (index # idxs). \<forall>isRow. \<forall>p\<in>set (line_items index n isRow).
             \<sigma> (g p) \<in> set (domain (h ! g p))" for \<sigma>
  proof -
    from v have v1: "\<forall>p\<in>set (line_items index n True). \<sigma> (g p) \<in> set (domain (h ! g p))"
      and v2: "\<forall>p\<in>set (line_items index n False). \<sigma> (g p) \<in> set (domain (h ! g p))"
      and v3: "\<forall>index\<in>set idxs. \<forall>isRow. \<forall>p\<in>set (line_items index n isRow).
                       \<sigma> (g p) \<in> set (domain (h ! g p))"
      by simp_all
    have a: "(\<forall>c\<in>set rowCons. satisfies \<sigma> c) \<longleftrightarrow>
             distinct (map (\<lambda>p. \<sigma> (g p)) (line_items index n True))"
      using rs v1 by blast
    have b: "(\<forall>c\<in>set colCons. satisfies \<sigma> c) \<longleftrightarrow>
             distinct (map (\<lambda>p. \<sigma> (g p)) (line_items index n False))"
      using cs v2 by blast
    have c: "(\<forall>c\<in>set tl. satisfies \<sigma> c) \<longleftrightarrow>
             (\<forall>index\<in>set idxs. \<forall>isRow. distinct (map (\<lambda>p. \<sigma> (g p)) (line_items index n isRow)))"
      using ts v3 by blast
    have split: "(\<forall>isRow. P isRow) \<longleftrightarrow> P True \<and> P False" for P
      by (metis (full_types))
    show ?thesis
      unfolding set_append ball_Un a b c set_simps ball_simps
      by (subst (2) split) blast
  qed
  with eq show ?case by blast
qed

text \<open>An all-different constraint holds iff the values are in the domains and distinct.\<close>

lemma product_lists_member:
  "t \<in> set (product_lists ds) \<longleftrightarrow> list_all2 (\<lambda>x d. x \<in> set d) t ds"
  by (simp add: product_lists_set)

lemma remdups_length_distinct: "length t = length (remdups t) \<longleftrightarrow> distinct t"
  by (metis length_remdups_eq remdups_id_iff_distinct)

lemma helper_nary_run:
  assumes "\<forall>p\<in>set (line_items index n isRow). board_get vars p = Inr (g p)"
  shows "\<exists>c. helper_nary_ad_constraint vstr h index n vars isRow = Inr c \<and>
             scope c = map g (line_items index n isRow) \<and>
             (\<forall>\<sigma>. satisfies \<sigma> c \<longleftrightarrow>
                  (\<forall>p\<in>set (line_items index n isRow). \<sigma> (g p) \<in> set (domain (h ! g p))) \<and>
                  distinct (map (\<lambda>p. \<sigma> (g p)) (line_items index n isRow)))"
proof -
  let ?items = "line_items index n isRow"
  have m: "map_err (board_get vars) ?items = Inr (map g ?items)"
    using assms by (rule map_err_total)
  let ?c = "add_satisfying_tuples
              (new_Constraint (''C('' @ join '','' (map (\<lambda>v. last3 (vstr (h ! v))) (map g ?items)) @ '')'')
                 (map g ?items))
              (filter (\<lambda>t. length t = length (remdups t))
                 (product_lists (map (\<lambda>v. domain (h ! v)) (map g ?items))))"
  have run: "helper_nary_ad_constraint vstr h index n vars isRow = Inr ?c"
    by (simp add: helper_nary_ad_constraint_def m Let_def)
  have sc: "scope ?c = map g ?items"
    by (simp add: add_satisfying_tuples_def new_Constraint_def)
  have st: "sat_tuples ?c = filter (\<lambda>t. length t = length (remdups t))
                 (product_lists (map (\<lambda>v. domain (h ! v)) (map g ?items)))"
    by (simp add: add_satisfying_tuples_def new_Constraint_def)
  have sat: "satisfies \<sigma> ?c \<longleftrightarrow>
                  (\<forall>p\<in>set ?items. \<sigma> (g p) \<in> set (domain (h ! g p))) \<and>
                  distinct (map (\<lambda>p. \<sigma> (g p)) ?items)" for \<sigma>
  proof -
    have "list_all2 (\<lambda>x d. x \<in> set d) (map \<sigma> (map g ?items)) (map (\<lambda>v. domain (h ! v)) (map g ?items))
          \<longleftrightarrow> (\<forall>p\<in>set ?items. \<sigma> (g p) \<in> set (domain (h ! g p)))"
      by (simp add: list_all2_map1 list_all2_map2 list_all2_same)
    then show ?thesis
      unfolding satisfies_def sc st
      by (simp add: product_lists_member remdups_length_distinct comp_def del: product_lists_set)
  qed
  from run sc sat show ?thesis by blast
qed

lemma nary_grid_loop_run:
  assumes "\<forall>index\<in>set idxs. \<forall>isRow. \<forall>p\<in>set (line_items index n isRow). board_get vars p = Inr (g p)"
  shows "\<exists>cs. nary_grid_loop vstr h n vars idxs acc = Inr (acc @ cs) \<and>
              length cs = 2 * length idxs \<and>
              (\<forall>\<sigma>. (\<forall>index\<in>set idxs. \<forall>isRow. \<forall>p\<in>set (line_items index n isRow).
                       \<sigma> (g p) \<in> set (domain (h ! g p))) \<longrightarrow>
                   ((\<forall>c\<in>set cs. satisfies \<sigma> c) \<longleftrightarrow>
                    (\<forall>index\<in>set idxs. \<forall>isRow.
                       distinct (map (\<lambda>p. \<sigma> (g p)) (line_items index n isRow)))))"
  using assms
proof (induction idxs arbitrary: acc)
  case Nil
  show ?case by simp
next
  case (Cons index idxs)
  from Cons.prems have here: "\<forall>p\<in>set (line_items index n isRow). board_get vars p = Inr (g p)" for isRow
    by simp
  from Cons.prems have rest: "\<forall>index\<in>set idxs. \<forall>isRow. \<forall>p\<in>set (line_items index n isRow).
      board_get vars p = Inr (g p)"
    by simp
  from helper_nary_run [OF here, of vstr h True] obtain rowCon
    where r: "helper_nary_ad_constraint vstr h index n vars True = Inr rowCon"
      and rs: "\<forall>\<sigma>. satisfies \<sigma> rowCon \<longleftrightarrow>
                  (\<forall>p\<in>set (line_items index n True). \<sigma> (g p) \<in> set (domain (h ! g p))) \<and>
                  distinct (map (\<lambda>p. \<sigma> (g p)) (line_items index n True))"
    by blast
  from helper_nary_run [OF here, of vstr h False] obtain colCon
    where c: "helper_nary_ad_constraint vstr h index n vars False = Inr colCon"
      and cs: "\<forall>\<sigma>. satisfies \<sigma> colCon \<longleftrightarrow>
                  (\<forall>p\<in>set (line_items index n False). \<sigma> (g p) \<in> set (domain (h ! g p))) \<and>
                  distinct (map (\<lambda>p. \<sigma> (g p)) (line_items index n False))"
    by blast
  from Cons.IH [OF rest, of "acc @ [rowCon] @ [colCon]"] obtain tl
    where run: "nary_grid_loop vstr h n vars idxs (acc @ [rowCon] @ [colCon]) =
                  Inr ((acc @ [rowCon] @ [colCon]) @ tl)"
      and len: "length tl = 2 * length idxs"
      and ts: "\<forall>\<sigma>. (\<forall>index\<in>set idxs. \<forall>isRow. \<forall>p\<in>set (line_items index n isRow).
                       \<sigma> (g p) \<in> set (domain (h ! g p))) \<longrightarrow>
                   ((\<forall>c\<in>set tl. satisfies \<sigma> c) \<longleftrightarrow>
                    (\<forall>index\<in>set idxs. \<forall>isRow.
                       distinct (map (\<lambda>p. \<sigma> (g p)) (line_items index n isRow))))"
    by blast
  have eq: "nary_grid_loop vstr h n vars (index # idxs) acc = Inr (acc @ (rowCon # colCon # tl))"
    using run by (simp add: r c)
  have len': "length (rowCon # colCon # tl) = 2 * length (index # idxs)"
    using len by simp
  have "(\<forall>c\<in>set (rowCon # colCon # tl). satisfies \<sigma> c) \<longleftrightarrow>
        (\<forall>index\<in>set (index # idxs). \<forall>isRow.
             distinct (map (\<lambda>p. \<sigma> (g p)) (line_items index n isRow)))"
    if v: "\<forall>index\<in>set (index # idxs). \<forall>isRow. \<forall>p\<in>set (line_items index n isRow).
             \<sigma> (g p) \<in> set (domain (h ! g p))" for \<sigma>
  proof -
    from v have v1: "\<forall>p\<in>set (line_items index n True). \<sigma> (g p) \<in> set (domain (h ! g p))"
      and v2: "\<forall>p\<in>set (line_items index n False). \<sigma> (g p) \<in> set (domain (h ! g p))"
      and v3: "\<forall>index\<in>set idxs. \<forall>isRow. \<forall>p\<in>set (line_items index n isRow).
                       \<sigma> (g p) \<in> set (domain (h ! g p))"
      by simp_all
    have a: "satisfies \<sigma> rowCon \<longleftrightarrow> distinct (map (\<lambda>p. \<sigma> (g p)) (line_items index n True))"
      using rs v1 by blast
    have b: "satisfies \<sigma> colCon \<longleftrightarrow> distinct (map (\<lambda>p. \<sigma> (g p)) (line_items index n False))"
      using cs v2 by blast
    have c: "(\<forall>c\<in>set tl. satisfies \<sigma> c) \<longleftrightarrow>
             (\<forall>index\<in>set idxs. \<forall>isRow. distinct (map (\<lambda>p. \<sigma> (g p)) (line_items index n isRow)))"
      using ts v3 by blast
    have split: "(\<forall>isRow. P isRow) \<longleftrightarrow> P True \<and> P False" for P
      by (metis (full_types))
    show ?thesis
      unfolding set_simps ball_simps a b c
      by (subst (2) split) blast
  qed
  with eq len' show ?case by blast
qed

text \<open>The board that the grid functions build: cell addresses and domains.\<close>

lemma concat_rows_upt:
  "concat (map (\<lambda>i. [b + i * N..<b + i * N + N]) [0..<m]) = [b..<b + m * N]"
proof (induction m)
  case 0 show ?case by simp
next
  case (Suc m)
  have "[b..<b + m * N] @ [b + m * N..<b + m * N + N] = [b..<b + m * N + N]"
    by (metis add.assoc le_add1 upt_add_eq_append)
  moreover have "concat (map (\<lambda>i. [b + i * N..<b + i * N + N]) [0..<Suc m]) =
        concat (map (\<lambda>i. [b + i * N..<b + i * N + N]) [0..<m]) @ [b + m * N..<b + m * N + N]"
    by simp
  moreover have "b + Suc m * N = b + m * N + N" by simp
  ultimately show ?case by (simp only: Suc.IH)
qed

lemma set_dom_range: "set (map (\<lambda>i. i + 1) (range_py n)) = {x. 1 \<le> x \<and> x \<le> n}"
proof (intro set_eqI iffI)
  fix x assume "x \<in> set (map (\<lambda>i. i + 1) (range_py n))"
  then show "x \<in> {x. 1 \<le> x \<and> x \<le> n}" by (auto simp: range_py_def)
next
  fix x assume "x \<in> {x. 1 \<le> x \<and> x \<le> n}"
  then have "nat (x - 1) < nat n" "x = int (nat (x - 1)) + 1" by auto
  then show "x \<in> set (map (\<lambda>i. i + 1) (range_py n))"
    unfolding range_py_def set_map set_upt by (metis (no_types, lifting) atLeastLessThan_iff image_eqI le0)
qed

lemma length_dom_range: "length (map (\<lambda>i. i + 1) (range_py n)) = nat n"
  by (simp add: range_py_def)

lemma new_board_facts:
  assumes nb: "new_board h0 d d [] = (h, vars)" and i: "i < length d" and j: "j < length d"
  shows "board_get vars (int i, int j) = Inr (length h0 + i * length d + j)"
    and "domain (h ! (length h0 + i * length d + j)) = d"
proof -
  let ?N = "length d"
  let ?new = "concat (map (\<lambda>vRow. map (\<lambda>vCol. new_Variable (''V'' @ str_int vRow @ str_int vCol) d) d) d)"
  from nb have h: "h = h0 @ ?new"
    and vars: "vars = map (\<lambda>i. [length h0 + i * ?N..<length h0 + i * ?N + ?N]) [0..<?N]"
    by (simp_all add: new_board_run)
  have row: "getitem vars (int i) = Inr [length h0 + i * ?N..<length h0 + i * ?N + ?N]"
    using i by (simp add: getitem_nat vars)
  have cell: "getitem [length h0 + i * ?N..<length h0 + i * ?N + ?N] (int j) = Inr (length h0 + i * ?N + j)"
    using j by (simp add: getitem_nat)
  show "board_get vars (int i, int j) = Inr (length h0 + i * ?N + j)"
    by (simp add: board_get_def row cell)
  have len: "length ?new = ?N * ?N"
    by (simp add: length_concat comp_def sum_list_triv)
  have "i * ?N + j < i * ?N + ?N" using j by simp
  also have "\<dots> = Suc i * ?N" by simp
  also have "\<dots> \<le> ?N * ?N" using i by (metis Suc_leI mult_le_mono1)
  finally have k: "i * ?N + j < length ?new" using len by simp
  then have "?new ! (i * ?N + j) \<in> set ?new" by (rule nth_mem)
  then have "domain (?new ! (i * ?N + j)) = d"
    by (auto simp: domain_def new_Variable_def)
  moreover have "h ! (length h0 + i * ?N + j) = ?new ! (i * ?N + j)"
    unfolding h by (simp add: nth_append add.assoc)
  ultimately show "domain (h ! (length h0 + i * ?N + j)) = d" by simp
qed

lemma new_board_shape:
  assumes nb: "new_board h0 d d [] = (h, vars)"
  shows "length vars = length d" "\<forall>row\<in>set vars. length row = length d"
    "concat vars = [length h0..<length h0 + length d * length d]"
    "length h = length h0 + length d * length d"
proof -
  let ?N = "length d"
  from nb have vars: "vars = map (\<lambda>i. [length h0 + i * ?N..<length h0 + i * ?N + ?N]) [0..<?N]"
    and h: "h = h0 @ concat (map (\<lambda>vRow. map (\<lambda>vCol. new_Variable (''V'' @ str_int vRow @ str_int vCol) d) d) d)"
    by (simp_all add: new_board_run)
  show "length vars = ?N" by (simp add: vars)
  show "\<forall>row\<in>set vars. length row = ?N" by (auto simp: vars)
  show "concat vars = [length h0..<length h0 + ?N * ?N]"
    unfolding vars by (rule concat_rows_upt)
  show "length h = length h0 + ?N * ?N"
    unfolding h by (simp add: length_concat comp_def sum_list_triv)
qed

lemma line_items_cells:
  assumes "index \<in> set (range_py n)" "p \<in> set (line_items index n isRow)"
  shows "\<exists>i j. i < nat n \<and> j < nat n \<and> p = (int i, int j)"
proof (cases isRow)
  case True
  with assms show ?thesis by (auto simp: line_items_row range_py_def)
next
  case False
  with assms show ?thesis by (auto simp: line_items_col range_py_def)
qed

lemma grid_board_ready:
  assumes nb: "new_board h0 d d [] = (h, vars)" and d: "d = map (\<lambda>i. i + 1) (range_py n)"
      and idx: "index \<in> set (range_py n)" and p: "p \<in> set (line_items index n isRow)"
  shows "board_get vars p = Inr (length h0 + nat (fst p) * nat n + nat (snd p))"
    and "domain (h ! (length h0 + nat (fst p) * nat n + nat (snd p))) = d"
    and "length h0 + nat (fst p) * nat n + nat (snd p) \<in> set (concat vars)"
proof -
  have N: "length d = nat n" unfolding d by (rule length_dom_range)
  from line_items_cells [OF idx p] obtain i j
    where i: "i < nat n" and j: "j < nat n" and pij: "p = (int i, int j)"
    by blast
  from new_board_facts [OF nb, of i j] i j N
  show "board_get vars p = Inr (length h0 + nat (fst p) * nat n + nat (snd p))"
    and "domain (h ! (length h0 + nat (fst p) * nat n + nat (snd p))) = d"
    by (simp_all add: pij)
  have "i * nat n + j < i * nat n + nat n" using j by simp
  also have "\<dots> = Suc i * nat n" by simp
  also have "\<dots> \<le> nat n * nat n" using i by (metis Suc_leI mult_le_mono1)
  finally have "length h0 + i * nat n + j < length h0 + nat n * nat n" by simp
  then show "length h0 + nat (fst p) * nat n + nat (snd p) \<in> set (concat vars)"
    by (simp add: new_board_shape(3) [OF nb] N pij)
qed

text \<open>
  Both grid functions succeed on every description with a leading row \<open>[n]\<close>, build
  the same store and board, and accept the same assignments.
\<close>

lemma grid_models_run:
  "\<exists>h csp_b csp_n vars.
      binary_ne_grid h0 ([n] # rows) = Inr (h, csp_b, vars) \<and>
      nary_ad_grid vstr h0 ([n] # rows) = Inr (h, csp_n, vars) \<and>
      length vars = nat n \<and> (\<forall>row\<in>set vars. length row = nat n) \<and> distinct (concat vars) \<and>
      (\<forall>\<sigma>. (\<forall>a\<in>set (concat vars). 1 \<le> \<sigma> a \<and> \<sigma> a \<le> n) \<longrightarrow>
           ((\<forall>c\<in>set (csp_cons csp_b). satisfies \<sigma> c) \<longleftrightarrow>
            (\<forall>c\<in>set (csp_cons csp_n). satisfies \<sigma> c)))"
proof -
  define d where "d = map (\<lambda>i. i + 1) (range_py n)"
  obtain h vars where nb: "new_board h0 d d [] = (h, vars)"
    by (cases "new_board h0 d d []") blast
  define g where "g p = length h0 + nat (fst p) * nat n + nat (snd p)" for p :: "int \<times> int"
  have N: "length d = nat n" unfolding d_def by (rule length_dom_range)
  have ready: "\<forall>index\<in>set (range_py n). \<forall>isRow. \<forall>p\<in>set (line_items index n isRow).
                 board_get vars p = Inr (g p)"
    using grid_board_ready(1) [OF nb d_def] by (simp add: g_def)
  have doms: "\<forall>index\<in>set (range_py n). \<forall>isRow. \<forall>p\<in>set (line_items index n isRow).
                 set (domain (h ! g p)) = {x. 1 \<le> x \<and> x \<le> n}"
  proof (intro ballI allI)
    fix index isRow p
    assume "index \<in> set (range_py n)" "p \<in> set (line_items index n isRow)"
    from grid_board_ready(2) [OF nb d_def this] have "domain (h ! g p) = d"
      by (simp add: g_def)
    then show "set (domain (h ! g p)) = {x. 1 \<le> x \<and> x \<le> n}"
      unfolding d_def by (simp only: set_dom_range)
  qed
  have cells: "\<forall>index\<in>set (range_py n). \<forall>isRow. \<forall>p\<in>set (line_items index n isRow).
                 g p \<in> set (concat vars)"
    using grid_board_ready(3) [OF nb d_def] by (simp add: g_def)
  from binary_grid_loop_run [OF ready, of h "[]"] obtain bs
    where brun: "binary_grid_loop h n vars (range_py n) [] = Inr bs"
      and bsat: "\<forall>\<sigma>. (\<forall>index\<in>set (range_py n). \<forall>isRow. \<forall>p\<in>set (line_items index n isRow).
                       \<sigma> (g p) \<in> set (domain (h ! g p))) \<longrightarrow>
                   ((\<forall>c\<in>set bs. satisfies \<sigma> c) \<longleftrightarrow>
                    (\<forall>index\<in>set (range_py n). \<forall>isRow.
                       distinct (map (\<lambda>p. \<sigma> (g p)) (line_items index n isRow))))"
    by auto
  from nary_grid_loop_run [OF ready, of vstr h "[]"] obtain ns
    where nrun: "nary_grid_loop vstr h n vars (range_py n) [] = Inr ns"
      and nsat: "\<forall>\<sigma>. (\<forall>index\<in>set (range_py n). \<forall>isRow. \<forall>p\<in>set (line_items index n isRow).
                       \<sigma> (g p) \<in> set (domain (h ! g p))) \<longrightarrow>
                   ((\<forall>c\<in>set ns. satisfies \<sigma> c) \<longleftrightarrow>
                    (\<forall>index\<in>set (range_py n). \<forall>isRow.
                       distinct (map (\<lambda>p. \<sigma> (g p)) (line_items index n isRow))))"
    by auto
  have b: "binary_ne_grid h0 ([n] # rows) = Inr (h, build_csp n vars bs, vars)"
    using nb brun by (simp add: binary_ne_grid_def d_def [symmetric] Let_def)
  have c: "nary_ad_grid vstr h0 ([n] # rows) = Inr (h, build_csp n vars ns, vars)"
    using nb nrun by (simp add: nary_ad_grid_def d_def [symmetric] Let_def)
  have shape: "length vars = nat n" "\<forall>row\<in>set vars. length row = nat n" "distinct (concat vars)"
    using new_board_shape [OF nb] N by simp_all
  have eq: "(\<forall>c\<in>set (csp_cons (build_csp n vars bs)). satisfies \<sigma> c) \<longleftrightarrow>
            (\<forall>c\<in>set (csp_cons (build_csp n vars ns)). satisfies \<sigma> c)"
    if v: "\<forall>a\<in>set (concat vars). 1 \<le> \<sigma> a \<and> \<sigma> a \<le> n" for \<sigma>
  proof -
    have V: "\<forall>index\<in>set (range_py n). \<forall>isRow. \<forall>p\<in>set (line_items index n isRow).
               \<sigma> (g p) \<in> set (domain (h ! g p))"
      using v cells doms by blast
    from bsat V nsat show ?thesis
      by (simp only: build_csp_fields)
  qed
  from b c shape eq show ?thesis by blast
qed

lemma grid_models_total:
  "\<exists>r. binary_ne_grid h0 ([n] # rows) = Inr r" "\<exists>r. nary_ad_grid vstr h0 ([n] # rows) = Inr r"
  using grid_models_run [of h0 n rows vstr] by blast+

text \<open>
  Claim C5. For every grid size \<open>n\<close>, \<^verbatim>\<open>binary_ne_grid\<close> and \<^verbatim>\<open>nary_ad_grid\<close>,
  run from the same store, build the same \<open>n\<close> by \<open>n\<close> board of distinct variables,
  and every assignment that gives each cell a value from 1 to \<open>n\<close> satisfies all
  constraints of the binary model iff it satisfies all constraints of the n-ary model.
\<close>

theorem binary_nary_equivalent:
  "\<exists>h csp_b csp_n vars.
      binary_ne_grid h0 ([n] # rows) = Inr (h, csp_b, vars) \<and>
      nary_ad_grid vstr h0 ([n] # rows) = Inr (h, csp_n, vars) \<and>
      length vars = nat n \<and> (\<forall>row\<in>set vars. length row = nat n) \<and> distinct (concat vars) \<and>
      (\<forall>\<sigma>. (\<forall>a\<in>set (concat vars). 1 \<le> \<sigma> a \<and> \<sigma> a \<le> n) \<longrightarrow>
           ((\<forall>c\<in>set (csp_cons csp_b). satisfies \<sigma> c) \<longleftrightarrow>
            (\<forall>c\<in>set (csp_cons csp_n). satisfies \<sigma> c)))"
  by (rule grid_models_run)

text \<open>
  Claim C5 at size 3: 18 binary and 6 all-different constraints; both models accept the
  Latin square and both reject the assignment with a repeated value.
\<close>

theorem binary_nary_equivalent_witness:
  "map (\<lambda>r. length (csp_cons (fst (snd r))))
     [projr (binary_ne_grid [] [[3], [11, 12, 3, 0]]), projr (nary_ad_grid name [] [[3], [11, 12, 3, 0]])] =
     [18, 6] \<and>
   map (\<lambda>r. list_all (satisfies latin3) (csp_cons (fst (snd r))))
     [projr (binary_ne_grid [] [[3], [11, 12, 3, 0]]), projr (nary_ad_grid name [] [[3], [11, 12, 3, 0]])] =
     [True, True] \<and>
   map (\<lambda>r. list_all (satisfies clash3) (csp_cons (fst (snd r))))
     [projr (binary_ne_grid [] [[3], [11, 12, 3, 0]]), projr (nary_ad_grid name [] [[3], [11, 12, 3, 0]])] =
     [False, False] \<and>
   (\<exists>h csp_b csp_n vars.
      binary_ne_grid [] ([3] # [[11, 12, 3, 0]]) = Inr (h, csp_b, vars) \<and>
      nary_ad_grid name [] ([3] # [[11, 12, 3, 0]]) = Inr (h, csp_n, vars) \<and>
      length vars = nat 3 \<and> (\<forall>row\<in>set vars. length row = nat 3) \<and> distinct (concat vars) \<and>
      (\<forall>\<sigma>. (\<forall>a\<in>set (concat vars). 1 \<le> \<sigma> a \<and> \<sigma> a \<le> 3) \<longrightarrow>
           ((\<forall>c\<in>set (csp_cons csp_b). satisfies \<sigma> c) \<longleftrightarrow>
            (\<forall>c\<in>set (csp_cons csp_n). satisfies \<sigma> c))))"
proof -
  have a: "map (\<lambda>r. length (csp_cons (fst (snd r))))
     [projr (binary_ne_grid [] [[3], [11, 12, 3, 0]]), projr (nary_ad_grid name [] [[3], [11, 12, 3, 0]])] =
     [18, 6]"
    by code_simp
  have b: "map (\<lambda>r. list_all (satisfies latin3) (csp_cons (fst (snd r))))
     [projr (binary_ne_grid [] [[3], [11, 12, 3, 0]]), projr (nary_ad_grid name [] [[3], [11, 12, 3, 0]])] =
     [True, True]"
    by code_simp
  have c: "map (\<lambda>r. list_all (satisfies clash3) (csp_cons (fst (snd r))))
     [projr (binary_ne_grid [] [[3], [11, 12, 3, 0]]), projr (nary_ad_grid name [] [[3], [11, 12, 3, 0]])] =
     [False, False]"
    by code_simp
  note inst = binary_nary_equivalent [of "[]" 3 "[[11, 12, 3, 0]]" name]
  show ?thesis by (intro conjI a b c inst)
qed

text \<open>
  Claim C10. Two descriptions whose leading rows carry the same grid size give equal
  results of \<^verbatim>\<open>binary_ne_grid\<close>, and equal results of \<^verbatim>\<open>nary_ad_grid\<close> (store,
  variables with their names and domains, constraints with scopes and tuples, board):
  the rows after the first are never read.
\<close>

theorem grid_models_ignore_cages: "(\<exists>r. binary_ne_grid h0 ([n] # rows1) = Inr r \<and> binary_ne_grid h0 ([n] # rows2) = Inr r) \<and>
   (\<exists>r. nary_ad_grid vstr h0 ([n] # rows1) = Inr r \<and> nary_ad_grid vstr h0 ([n] # rows2) = Inr r)"
proof -
  have b: "binary_ne_grid h0 ([n] # rows2) = binary_ne_grid h0 ([n] # rows1)"
    by (simp add: binary_ne_grid_def)
  have c: "nary_ad_grid vstr h0 ([n] # rows2) = nary_ad_grid vstr h0 ([n] # rows1)"
    by (simp add: nary_ad_grid_def)
  from grid_models_total(1) [of h0 n rows1] obtain r1 where r1: "binary_ne_grid h0 ([n] # rows1) = Inr r1" ..
  from grid_models_total(2) [of vstr h0 n rows1] obtain r2 where r2: "nary_ad_grid vstr h0 ([n] # rows1) = Inr r2" ..
  from r1 r2 show ?thesis unfolding b c by blast
qed

text \<open>Claim C10 at size 2, with a cage row in one description and forced rows in the other.\<close>

theorem grid_models_ignore_cages_witness:
  "binary_ne_grid [] [[2], [11, 12, 3, 0]] = Inr (grid2_store, grid2_csp, grid2_board) \<and>
   binary_ne_grid [] [[2], [11, 1], [22, 2]] = Inr (grid2_store, grid2_csp, grid2_board) \<and>
   nary_ad_grid name [] [[2], [11, 12, 3, 0]] = Inr (grid2_store, grid2_csp, grid2_board) \<and>
   nary_ad_grid name [] [[2], [11, 1], [22, 2]] = Inr (grid2_store, grid2_csp, grid2_board) \<and>
   (\<exists>r. binary_ne_grid [] ([2] # [[11, 12, 3, 0]]) = Inr r \<and>
        binary_ne_grid [] ([2] # [[11, 1], [22, 2]]) = Inr r) \<and>
   (\<exists>r. nary_ad_grid name [] ([2] # [[11, 12, 3, 0]]) = Inr r \<and>
        nary_ad_grid name [] ([2] # [[11, 1], [22, 2]]) = Inr r)"
proof -
  have a: "binary_ne_grid [] [[2], [11, 12, 3, 0]] = Inr (grid2_store, grid2_csp, grid2_board)"
    by code_simp
  have b: "binary_ne_grid [] [[2], [11, 1], [22, 2]] = Inr (grid2_store, grid2_csp, grid2_board)"
    by code_simp
  have c: "nary_ad_grid name [] [[2], [11, 12, 3, 0]] = Inr (grid2_store, grid2_csp, grid2_board)"
    by code_simp
  have d: "nary_ad_grid name [] [[2], [11, 1], [22, 2]] = Inr (grid2_store, grid2_csp, grid2_board)"
    by code_simp
  note inst = grid_models_ignore_cages [of "[]" 2 "[[11, 12, 3, 0]]" "[[11, 1], [22, 2]]" name]
  from inst have i1: "\<exists>r. binary_ne_grid [] ([2] # [[11, 12, 3, 0]]) = Inr r \<and>
        binary_ne_grid [] ([2] # [[11, 1], [22, 2]]) = Inr r"
    and i2: "\<exists>r. nary_ad_grid name [] ([2] # [[11, 12, 3, 0]]) = Inr r \<and>
        nary_ad_grid name [] ([2] # [[11, 1], [22, 2]]) = Inr r"
    by (rule conjunct1, rule conjunct2)
  show ?thesis by (intro conjI a b c d i1 i2)
qed

subsection \<open>The loop over the rows of the description\<close>

lemma board_get_conv:
  "board_get vars p = Inr a \<longleftrightarrow>
     (\<exists>i j. py_index vars (fst p) = Inr i \<and> py_index (vars ! i) (snd p) = Inr j \<and> a = vars ! i ! j)"
  by (auto simp: board_get_def getitem_def and_then_eq_Inr)

lemma board_get_member: "board_get vars p = Inr a \<Longrightarrow> a \<in> set (concat vars)"
  unfolding board_get_conv
  by (metis concat_conv_foldr nth_mem py_index_bound set_concat UN_I)

lemma sub_perms_subset: "sub_perms rs t val acc = Inr sat \<Longrightarrow> set sat \<subseteq> set acc \<union> {t}"
proof (induction rs arbitrary: acc)
  case Nil then show ?case by auto
next
  case (Cons r rs)
  from Cons.prems obtain r0 where
    "(if sub_chain r0 (tl r) = val then sub_perms rs t val (acc @ [t]) else sub_perms rs t val acc) = Inr sat"
    by (auto simp: and_then_eq_Inr Let_def)
  then show ?case using Cons.IH [of "acc @ [t]"] Cons.IH [of acc]
    by (auto split: if_splits)
qed

lemma div_perms_subset: "div_perms ops rs t val acc = Inr sat \<Longrightarrow> set sat \<subseteq> set acc \<union> {t}"
proof (induction rs arbitrary: acc)
  case Nil then show ?case by auto
next
  case (Cons r rs)
  from Cons.prems obtain res where
    "(if num_eq ops res val then div_perms ops rs t val (acc @ [t]) else div_perms ops rs t val acc) = Inr sat"
    by (auto simp: and_then_eq_Inr)
  then show ?case using Cons.IH [of "acc @ [t]"] Cons.IH [of acc]
    by (auto split: if_splits)
qed

lemma cage_tuples_subset:
  "cage_tuples ops op val ts acc = Inr sat \<Longrightarrow> set sat \<subseteq> set acc \<union> set ts"
proof (induction ts arbitrary: acc)
  case Nil then show ?case by auto
next
  case (Cons t ts)
  consider "op = 0" | "op = 1" | "op = 2" | "op = 3" | "op \<noteq> 0" "op \<noteq> 1" "op \<noteq> 2" "op \<noteq> 3"
    by blast
  then show ?case
  proof cases
    case 1
    with Cons.prems Cons.IH [of "acc @ [t]"] Cons.IH [of acc] show ?thesis
      by (auto split: if_splits)
  next
    case 2
    with Cons.prems obtain mid where m: "sub_perms (permutations t) t val acc = Inr mid"
      and r: "cage_tuples ops op val ts mid = Inr sat"
      by (auto simp: and_then_eq_Inr)
    from sub_perms_subset [OF m] Cons.IH [OF r] show ?thesis by auto
  next
    case 3
    with Cons.prems obtain mid where m: "div_perms ops (permutations t) t val acc = Inr mid"
      and r: "cage_tuples ops op val ts mid = Inr sat"
      by (auto simp: and_then_eq_Inr)
    from div_perms_subset [OF m] Cons.IH [OF r] show ?thesis by auto
  next
    case 4
    with Cons.prems Cons.IH [of "acc @ [t]"] Cons.IH [of acc] show ?thesis
      by (auto split: if_splits)
  next
    case 5
    with Cons.prems Cons.IH [of acc] show ?thesis by auto
  qed
qed

lemma forced_cell_run:
  assumes "forced_cell cage (h, vars, cons) = Inr st'"
  shows "\<exists>i j nm. py_index vars (cage ! 0 div 10 - 1) = Inr i \<and>
                  py_index (vars ! i) (cage ! 0 mod 10 - 1) = Inr j \<and>
                  st' = (h @ [new_Variable nm [cage ! 1]], vars[i := (vars ! i)[j := length h]], cons)"
  using assms
  by (auto simp: forced_cell_def Let_def getitem_def setitem_def and_then_eq_Inr)

lemma larger_cage_run:
  assumes "larger_cage ops vstr cage (h, vars, cons) = Inr st'"
  shows "\<exists>cageVars sat nm.
           map_err (\<lambda>v. board_get vars (v div 10 - 1, v mod 10 - 1)) (take (length cage - 2) cage) =
             Inr cageVars \<and>
           cage_tuples ops (cage ! (length cage - 1)) (cage ! (length cage - 2))
             (product_lists (map (\<lambda>v. domain (h ! v)) cageVars)) [] = Inr sat \<and>
           st' = (h, vars, cons @ [\<lparr>cname = nm, scope = cageVars, sat_tuples = sat\<rparr>])"
  using assms
  by (auto simp: larger_cage_def Let_def and_then_eq_Inr add_satisfying_tuples_def new_Constraint_def)

lemma cage_step_cases:
  "cage_step ops vstr cage st =
     (if length cage = 2 then forced_cell cage st
      else if 2 < length cage then larger_cage ops vstr cage st
      else Inr st)"
  by (cases "forced_cell cage st") (auto simp: cage_step_def)

text \<open>
  Variables are never changed while a model is compiled and the store only grows, so a
  well-formed board and well-formed constraints stay well-formed.
\<close>

lemma board_ok_extend: "board_ok h vars \<Longrightarrow> board_ok (h @ ext) vars"
  unfolding board_ok_def by (metis length_append trans_less_add1)

lemma con_ok_extend:
  assumes "con_ok h con"
  shows "con_ok (h @ ext) con"
proof -
  from assms have valid: "\<forall>a\<in>set (scope con). a < length h"
    and tuples: "\<forall>t\<in>set (sat_tuples con). list_all2 (\<lambda>x a. x \<in> set (domain (h ! a))) t (scope con)"
    by (simp_all add: con_ok_def)
  have v': "\<forall>a\<in>set (scope con). a < length (h @ ext)"
    using valid by (metis length_append trans_less_add1)
  have "list_all2 (\<lambda>x a. x \<in> set (domain ((h @ ext) ! a))) t (scope con)"
    if t: "t \<in> set (sat_tuples con)" for t
  proof -
    from tuples t have l: "list_all2 (\<lambda>x a. x \<in> set (domain (h ! a))) t (scope con)" by blast
    show ?thesis
      unfolding list_all2_conv_all_nth
    proof (intro conjI allI impI)
      show "length t = length (scope con)" using l by (rule list_all2_lengthD)
    next
      fix k assume k: "k < length t"
      with l have m: "t ! k \<in> set (domain (h ! (scope con ! k)))"
        by (simp add: list_all2_conv_all_nth)
      from k l have "scope con ! k \<in> set (scope con)"
        by (metis list_all2_lengthD nth_mem)
      with valid have "scope con ! k < length h" by blast
      then have "(h @ ext) ! (scope con ! k) = h ! (scope con ! k)" by (simp add: nth_append)
      with m show "t ! k \<in> set (domain ((h @ ext) ! (scope con ! k)))" by simp
    qed
  qed
  with v' show ?thesis by (simp add: con_ok_def)
qed

lemma update_cell_concat:
  assumes "a \<in> set (concat (vars[i := (vars ! i)[j := x]]))"
  shows "a = x \<or> a \<in> set (concat vars)"
proof -
  from assms obtain row where row: "row \<in> set (vars[i := (vars ! i)[j := x]])" and a: "a \<in> set row"
    by auto
  show ?thesis
  proof (cases "i < length vars")
    case False
    then have "vars[i := (vars ! i)[j := x]] = vars" by (simp add: list_update_beyond not_less)
    with row a show ?thesis by auto
  next
    case True
    from row have "row \<in> insert ((vars ! i)[j := x]) (set vars)"
      using set_update_subset_insert by fastforce
    then show ?thesis
    proof
      assume "row = (vars ! i)[j := x]"
      with a have "a \<in> insert x (set (vars ! i))"
        using set_update_subset_insert by fastforce
      moreover have "vars ! i \<in> set vars" using True by simp
      ultimately show ?thesis by auto
    next
      assume "row \<in> set vars"
      with a show ?thesis by auto
    qed
  qed
qed

lemma forced_cell_ok:
  assumes board: "board_ok h vars"
      and run: "forced_cell cage (h, vars, cons) = Inr (h', vars', cons')"
  shows "board_ok h' vars'"
    and "\<exists>x. h' = h @ [x] \<and> domain x = [cage ! 1]"
    and "cons' = cons"
    and "map length vars' = map length vars"
    and "board_get vars' (cage ! 0 div 10 - 1, cage ! 0 mod 10 - 1) = Inr (length h)"
proof -
  from forced_cell_run [OF run] obtain i j nm
    where i: "py_index vars (cage ! 0 div 10 - 1) = Inr i"
      and j: "py_index (vars ! i) (cage ! 0 mod 10 - 1) = Inr j"
      and h': "h' = h @ [new_Variable nm [cage ! 1]]"
      and vars': "vars' = vars[i := (vars ! i)[j := length h]]"
      and cons': "cons' = cons"
    by auto
  from i have il: "i < length vars" by (rule py_index_bound)
  from j have jl: "j < length (vars ! i)" by (rule py_index_bound)
  show "cons' = cons" by (rule cons')
  show "\<exists>x. h' = h @ [x] \<and> domain x = [cage ! 1]"
    using h' by (simp add: domain_def new_Variable_def)
  show "map length vars' = map length vars"
    unfolding vars' by (simp add: map_update list_update_same_conv il)
  show "board_ok h' vars'"
    unfolding board_ok_def
  proof
    fix a assume "a \<in> set (concat vars')"
    from update_cell_concat [OF this [unfolded vars']] board
    have "a = length h \<or> a < length h" by (auto simp: board_ok_def)
    then show "a < length h'" unfolding h' by auto
  qed
  have "length vars' = length vars" unfolding vars' by simp
  from py_index_length [OF this] i have "py_index vars' (cage ! 0 div 10 - 1) = Inr i"
    by simp
  moreover have "length (vars' ! i) = length (vars ! i)" using il unfolding vars' by simp
  from py_index_length [OF this] j have "py_index (vars' ! i) (cage ! 0 mod 10 - 1) = Inr j"
    by simp
  moreover have "vars' ! i ! j = length h"
    using il jl unfolding vars' by simp
  ultimately show "board_get vars' (cage ! 0 div 10 - 1, cage ! 0 mod 10 - 1) = Inr (length h)"
    unfolding board_get_conv by auto
qed

lemma product_tuple_in_domains:
  "t \<in> set (product_lists (map (\<lambda>v. domain (h ! v)) sc)) \<Longrightarrow>
   list_all2 (\<lambda>x a. x \<in> set (domain (h ! a))) t sc"
  by (simp add: product_lists_set list_all2_map2)

lemma map_err_board_valid:
  assumes "map_err (\<lambda>v. board_get vars (f v)) cells = Inr cageVars"
      and "board_ok h vars"
  shows "\<forall>a\<in>set cageVars. a < length h"
proof
  fix a assume "a \<in> set cageVars"
  then obtain k where k: "k < length cageVars" "a = cageVars ! k"
    by (auto simp: in_set_conv_nth)
  with map_err_length [OF assms(1)] have "k < length cells" by simp
  from map_err_nth [OF assms(1) this] k have "board_get vars (f (cells ! k)) = Inr a" by simp
  from board_get_member [OF this] assms(2) show "a < length h" unfolding board_ok_def by blast
qed

lemma larger_cage_ok:
  assumes board: "board_ok h vars"
      and run: "larger_cage ops vstr cage (h, vars, cons) = Inr (h', vars', cons')"
  shows "h' = h" and "vars' = vars"
    and "\<exists>con. cons' = cons @ [con] \<and> con_ok h con \<and>
           map_err (\<lambda>v. board_get vars (v div 10 - 1, v mod 10 - 1)) (take (length cage - 2) cage) =
             Inr (scope con)"
proof -
  from larger_cage_run [OF run] obtain cageVars sat nm
    where cells: "map_err (\<lambda>v. board_get vars (v div 10 - 1, v mod 10 - 1))
                    (take (length cage - 2) cage) = Inr cageVars"
      and tuples: "cage_tuples ops (cage ! (length cage - 1)) (cage ! (length cage - 2))
                     (product_lists (map (\<lambda>v. domain (h ! v)) cageVars)) [] = Inr sat"
      and st: "h' = h" "vars' = vars"
              "cons' = cons @ [\<lparr>cname = nm, scope = cageVars, sat_tuples = sat\<rparr>]"
    by auto
  show "h' = h" "vars' = vars" by (rule st)+
  have valid: "\<forall>a\<in>set cageVars. a < length h"
    using cells board by (rule map_err_board_valid)
  have "\<forall>t\<in>set sat. list_all2 (\<lambda>x a. x \<in> set (domain (h ! a))) t cageVars"
    using cage_tuples_subset [OF tuples] product_tuple_in_domains by auto
  with valid have "con_ok h \<lparr>cname = nm, scope = cageVars, sat_tuples = sat\<rparr>"
    by (simp add: con_ok_def)
  with st(3) cells show "\<exists>con. cons' = cons @ [con] \<and> con_ok h con \<and>
           map_err (\<lambda>v. board_get vars (v div 10 - 1, v mod 10 - 1)) (take (length cage - 2) cage) =
             Inr (scope con)"
    by simp
qed

lemma cage_step_ok:
  assumes board: "board_ok h vars" and cons: "\<forall>con\<in>set cons. con_ok h con"
      and run: "cage_step ops vstr cage (h, vars, cons) = Inr (h', vars', cons')"
  shows "board_ok h' vars' \<and> (\<forall>con\<in>set cons'. con_ok h' con) \<and> (\<exists>ext. h' = h @ ext) \<and>
         map length vars' = map length vars \<and>
         (\<exists>new. cons' = cons @ new \<and> length new = (if 2 < length cage then 1 else 0))"
proof -
  consider (forced) "length cage = 2" | (cage) "2 < length cage" | (skip) "length cage < 2"
    by linarith
  then show ?thesis
  proof cases
    case forced
    with run have f: "forced_cell cage (h, vars, cons) = Inr (h', vars', cons')"
      by (simp add: cage_step_cases)
    note r = forced_cell_ok [OF board f]
    from r(2) obtain x where h': "h' = h @ [x]" by blast
    have "\<forall>con\<in>set cons'. con_ok h' con"
      unfolding r(3) h' using cons con_ok_extend by blast
    with r(1) r(4) h' r(3) forced show ?thesis by simp
  next
    case cage
    with run have l: "larger_cage ops vstr cage (h, vars, cons) = Inr (h', vars', cons')"
      by (simp add: cage_step_cases)
    note r = larger_cage_ok [OF board l]
    from r(3) obtain con where c: "cons' = cons @ [con]" "con_ok h con" by blast
    with cons have "\<forall>con\<in>set cons'. con_ok h' con" unfolding r(1) by auto
    with board c(1) cage show ?thesis unfolding r(1) r(2) by simp
  next
    case skip
    with run have "h' = h" "vars' = vars" "cons' = cons"
      by (simp_all add: cage_step_cases)
    with board cons skip show ?thesis by simp
  qed
qed

lemma cage_loop_ok:
  assumes "board_ok h vars" "\<forall>con\<in>set cons. con_ok h con"
      and "cage_loop ops vstr rows (h, vars, cons) = Inr (h', vars', cons')"
  shows "board_ok h' vars' \<and> (\<forall>con\<in>set cons'. con_ok h' con) \<and> (\<exists>ext. h' = h @ ext) \<and>
         map length vars' = map length vars \<and>
         (\<exists>new. cons' = cons @ new \<and> length new = length (filter (\<lambda>row. 2 < length row) rows))"
  using assms
proof (induction rows arbitrary: h vars cons)
  case Nil
  then show ?case by simp
next
  case (Cons cage rows)
  from Cons.prems(3) obtain h1 vars1 cons1
    where step: "cage_step ops vstr cage (h, vars, cons) = Inr (h1, vars1, cons1)"
      and rest: "cage_loop ops vstr rows (h1, vars1, cons1) = Inr (h', vars', cons')"
    by (auto simp: and_then_eq_Inr)
  from cage_step_ok [OF Cons.prems(1,2) step]
  have b1: "board_ok h1 vars1" and c1: "\<forall>con\<in>set cons1. con_ok h1 con"
    and e1: "\<exists>ext. h1 = h @ ext" and s1: "map length vars1 = map length vars"
    and n1: "\<exists>new. cons1 = cons @ new \<and> length new = (if 2 < length cage then 1 else 0)"
    by blast+
  from Cons.IH [OF b1 c1 rest]
  have b2: "board_ok h' vars'" and c2: "\<forall>con\<in>set cons'. con_ok h' con"
    and e2: "\<exists>ext. h' = h1 @ ext" and s2: "map length vars' = map length vars1"
    and n2: "\<exists>new. cons' = cons1 @ new \<and> length new = length (filter (\<lambda>row. 2 < length row) rows)"
    by blast+
  from e1 e2 have e: "\<exists>ext. h' = h @ ext" by auto
  from n1 n2 obtain new1 new2 where "cons1 = cons @ new1" "cons' = cons1 @ new2"
    "length new1 = (if 2 < length cage then 1 else 0)"
    "length new2 = length (filter (\<lambda>row. 2 < length row) rows)"
    by blast
  then have "cons' = cons @ (new1 @ new2) \<and>
             length (new1 @ new2) = length (filter (\<lambda>row. 2 < length row) (cage # rows))"
    by simp
  then have n: "\<exists>new. cons' = cons @ new \<and>
                length new = length (filter (\<lambda>row. 2 < length row) (cage # rows))"
    by blast
  from b2 c2 e s1 s2 n show ?case by simp
qed

lemma cage_loop_append:
  "cage_loop ops vstr (xs @ ys) st = and_then (cage_loop ops vstr xs st) (cage_loop ops vstr ys)"
proof (induction xs arbitrary: st)
  case Nil show ?case by simp
next
  case (Cons x xs)
  show ?case by (cases "cage_step ops vstr x st") (simp_all add: Cons.IH)
qed

text \<open>
  A forced row for another cell leaves the cell of \<open>c\<close> as it is, when the digits of
  both cell indices are at least 1 (no index counts from the end).
\<close>

lemma py_index_pred: "py_index xs (k - 1) = Inr m \<Longrightarrow> 1 \<le> k \<Longrightarrow> m = nat (k - 1)"
  by (rule py_index_nat) simp_all

lemma nat_pred_inj: "nat (x - 1) = nat (y - 1) \<Longrightarrow> 1 \<le> x \<Longrightarrow> 1 \<le> y \<Longrightarrow> x = y"
  by simp

lemma cell_digits: "(c::int) div 10 = c' div 10 \<Longrightarrow> c mod 10 = c' mod 10 \<Longrightarrow> c = c'"
  by (metis mult_div_mod_eq)

lemma forced_cell_keeps_other:
  assumes run: "forced_cell cage (h, vars, cons) = Inr (h', vars', cons')"
      and wf: "1 \<le> c div 10" "1 \<le> c mod 10" "1 \<le> cage ! 0 div 10" "1 \<le> cage ! 0 mod 10"
      and other: "cage ! 0 \<noteq> c"
      and cell: "board_get vars (c div 10 - 1, c mod 10 - 1) = Inr a"
  shows "board_get vars' (c div 10 - 1, c mod 10 - 1) = Inr a"
proof -
  from forced_cell_run [OF run] obtain i2 j2
    where i2: "py_index vars (cage ! 0 div 10 - 1) = Inr i2"
      and j2: "py_index (vars ! i2) (cage ! 0 mod 10 - 1) = Inr j2"
      and vars': "vars' = vars[i2 := (vars ! i2)[j2 := length h]]"
    by auto
  from cell obtain i j
    where i: "py_index vars (c div 10 - 1) = Inr i"
      and j: "py_index (vars ! i) (c mod 10 - 1) = Inr j"
      and a: "a = vars ! i ! j"
    unfolding board_get_conv by auto
  have ni: "i = nat (c div 10 - 1)" "j = nat (c mod 10 - 1)"
    by (rule py_index_pred [OF i wf(1)], rule py_index_pred [OF j wf(2)])
  have ni2: "i2 = nat (cage ! 0 div 10 - 1)" "j2 = nat (cage ! 0 mod 10 - 1)"
    by (rule py_index_pred [OF i2 wf(3)], rule py_index_pred [OF j2 wf(4)])
  have diff: "i \<noteq> i2 \<or> j \<noteq> j2"
  proof (rule ccontr)
    assume "\<not> (i \<noteq> i2 \<or> j \<noteq> j2)"
    then have e1: "nat (c div 10 - 1) = nat (cage ! 0 div 10 - 1)"
      and e2: "nat (c mod 10 - 1) = nat (cage ! 0 mod 10 - 1)"
      using ni ni2 by simp_all
    have "c div 10 = cage ! 0 div 10" by (rule nat_pred_inj [OF e1 wf(1) wf(3)])
    moreover have "c mod 10 = cage ! 0 mod 10" by (rule nat_pred_inj [OF e2 wf(2) wf(4)])
    ultimately have "c = cage ! 0" by (rule cell_digits)
    with other show False by simp
  qed
  from i have il: "i < length vars" by (rule py_index_bound)
  from i2 have il2: "i2 < length vars" by (rule py_index_bound)
  have len: "length vars' = length vars" unfolding vars' by simp
  have rowlen: "length (vars' ! i) = length (vars ! i)"
    using il unfolding vars' by (cases "i = i2") simp_all
  have same: "vars' ! i ! j = vars ! i ! j"
    using il diff unfolding vars' by (cases "i = i2") auto
  from py_index_length [OF len] i have "py_index vars' (c div 10 - 1) = Inr i" by simp
  moreover from py_index_length [OF rowlen] j have "py_index (vars' ! i) (c mod 10 - 1) = Inr j"
    by simp
  ultimately show ?thesis unfolding board_get_conv using a same by auto
qed

lemma cage_loop_keeps_cell:
  assumes "cage_loop ops vstr rows (h, vars, cons) = Inr (h', vars', cons')"
      and "1 \<le> c div 10" "1 \<le> c mod 10"
      and "\<forall>row\<in>set rows. length row = 2 \<longrightarrow> 1 \<le> row ! 0 div 10 \<and> 1 \<le> row ! 0 mod 10 \<and> row ! 0 \<noteq> c"
      and "board_get vars (c div 10 - 1, c mod 10 - 1) = Inr a"
  shows "board_get vars' (c div 10 - 1, c mod 10 - 1) = Inr a"
  using assms
proof (induction rows arbitrary: h vars cons)
  case Nil
  then show ?case by simp
next
  case (Cons cage rows)
  from Cons.prems(1) obtain h1 vars1 cons1
    where step: "cage_step ops vstr cage (h, vars, cons) = Inr (h1, vars1, cons1)"
      and rest: "cage_loop ops vstr rows (h1, vars1, cons1) = Inr (h', vars', cons')"
    by (auto simp: and_then_eq_Inr)
  have keep: "board_get vars1 (c div 10 - 1, c mod 10 - 1) = Inr a"
  proof (cases "length cage = 2")
    case True
    with step have f: "forced_cell cage (h, vars, cons) = Inr (h1, vars1, cons1)"
      by (simp add: cage_step_cases)
    from Cons.prems(4) True have "1 \<le> cage ! 0 div 10" "1 \<le> cage ! 0 mod 10" "cage ! 0 \<noteq> c"
      by simp_all
    from forced_cell_keeps_other [OF f Cons.prems(2,3) this Cons.prems(5)] show ?thesis .
  next
    case False
    have "vars1 = vars"
    proof (cases "2 < length cage")
      case True
      with step have "larger_cage ops vstr cage (h, vars, cons) = Inr (h1, vars1, cons1)"
        by (simp add: cage_step_cases)
      from larger_cage_run [OF this] show ?thesis by auto
    next
      case False
      with \<open>length cage \<noteq> 2\<close> step show ?thesis by (simp add: cage_step_cases)
    qed
    with Cons.prems(5) show ?thesis by simp
  qed
  from Cons.prems(4) have "\<forall>row\<in>set rows. length row = 2 \<longrightarrow>
      1 \<le> row ! 0 div 10 \<and> 1 \<le> row ! 0 mod 10 \<and> row ! 0 \<noteq> c"
    by simp
  from Cons.IH [OF rest Cons.prems(2,3) this keep] show ?case .
qed

text \<open>The steps of \<^verbatim>\<open>kenken_csp_model\<close>, and the grid constraints it adds last.\<close>

lemma kenken_csp_model_run:
  assumes "kenken_csp_model ops vstr h0 grid = Inr (h, csp, vars)"
  shows "\<exists>first n hb vb cageCons cons.
           getitem grid 0 = Inr first \<and> getitem first 0 = Inr n \<and>
           new_board h0 (map (\<lambda>i. i + 1) (range_py n)) (map (\<lambda>i. i + 1) (range_py n)) [] = (hb, vb) \<and>
           cage_loop ops vstr grid (hb, vb, []) = Inr (h, vars, cageCons) \<and>
           nary_grid_loop vstr h n vars (range_py n) cageCons = Inr cons \<and>
           csp = build_csp n vars cons"
proof -
  from assms obtain first where f: "getitem grid 0 = Inr first"
    and r1: "and_then (getitem first 0) (\<lambda>size'.
       let dom = map (\<lambda>i. i + 1) (range_py size')
       in case new_board h0 dom dom [] of
            (h1, vars1) \<Rightarrow>
              and_then (cage_loop ops vstr grid (h1, vars1, [])) (\<lambda>st.
                case st of (h, vars, cageCons) \<Rightarrow>
                  and_then (nary_grid_loop vstr h size' vars (range_py size') cageCons) (\<lambda>cons.
                    Inr (h, build_csp size' vars cons, vars)))) = Inr (h, csp, vars)"
    unfolding kenken_csp_model_def and_then_eq_Inr by blast
  from r1 obtain n where n: "getitem first 0 = Inr n"
    and r2: "(let dom = map (\<lambda>i. i + 1) (range_py n)
       in case new_board h0 dom dom [] of
            (h1, vars1) \<Rightarrow>
              and_then (cage_loop ops vstr grid (h1, vars1, [])) (\<lambda>st.
                case st of (h, vars, cageCons) \<Rightarrow>
                  and_then (nary_grid_loop vstr h n vars (range_py n) cageCons) (\<lambda>cons.
                    Inr (h, build_csp n vars cons, vars)))) = Inr (h, csp, vars)"
    unfolding and_then_eq_Inr by blast
  obtain hb vb where nb:
    "new_board h0 (map (\<lambda>i. i + 1) (range_py n)) (map (\<lambda>i. i + 1) (range_py n)) [] = (hb, vb)"
    by (cases "new_board h0 (map (\<lambda>i. i + 1) (range_py n)) (map (\<lambda>i. i + 1) (range_py n)) []") blast
  from r2 nb have r3: "and_then (cage_loop ops vstr grid (hb, vb, [])) (\<lambda>st.
                case st of (h, vars, cageCons) \<Rightarrow>
                  and_then (nary_grid_loop vstr h n vars (range_py n) cageCons) (\<lambda>cons.
                    Inr (h, build_csp n vars cons, vars))) = Inr (h, csp, vars)"
    by (simp add: Let_def)
  then obtain st where st: "cage_loop ops vstr grid (hb, vb, []) = Inr st"
    and r4: "(case st of (h, vars, cageCons) \<Rightarrow>
                  and_then (nary_grid_loop vstr h n vars (range_py n) cageCons) (\<lambda>cons.
                    Inr (h, build_csp n vars cons, vars))) = Inr (h, csp, vars)"
    unfolding and_then_eq_Inr by blast
  obtain h' vars' cageCons where st': "st = (h', vars', cageCons)" by (cases st) auto
  from r4 st' obtain cons where
    c: "nary_grid_loop vstr h' n vars' (range_py n) cageCons = Inr cons"
    and e: "(h', build_csp n vars' cons, vars') = (h, csp, vars)"
    by (auto simp: and_then_eq_Inr)
  from e have "h' = h" "vars' = vars" "csp = build_csp n vars cons" by auto
  with f n nb st st' c show ?thesis by blast
qed

lemma new_board_ok:
  assumes "new_board h0 d d [] = (h, vars)"
  shows "board_ok h vars"
  unfolding board_ok_def
  by (simp add: new_board_shape(3,4) [OF assms])

lemma helper_nary_ok:
  assumes board: "board_ok h vars"
      and run: "helper_nary_ad_constraint vstr h index n vars isRow = Inr con"
  shows "con_ok h con"
    and "map_err (board_get vars) (line_items index n isRow) = Inr (scope con)"
proof -
  from run obtain curVars
    where cells: "map_err (board_get vars) (line_items index n isRow) = Inr curVars"
      and con: "scope con = curVars"
         "sat_tuples con = filter (\<lambda>t. length t = length (remdups t))
                             (product_lists (map (\<lambda>v. domain (h ! v)) curVars))"
    by (auto simp: helper_nary_ad_constraint_def Let_def and_then_eq_Inr
          add_satisfying_tuples_def new_Constraint_def)
  show "map_err (board_get vars) (line_items index n isRow) = Inr (scope con)"
    using cells con(1) by simp
  have valid: "\<forall>a\<in>set curVars. a < length h"
    using cells board by (rule map_err_board_valid [where f = "\<lambda>p. p"])
  have "\<forall>t\<in>set (sat_tuples con). list_all2 (\<lambda>x a. x \<in> set (domain (h ! a))) t curVars"
    unfolding con(2) using product_tuple_in_domains by auto
  with valid con(1) show "con_ok h con" by (simp add: con_ok_def)
qed

lemma nary_grid_loop_ok:
  assumes "board_ok h vars"
      and "nary_grid_loop vstr h n vars idxs acc = Inr cons"
  shows "\<exists>new. cons = acc @ new \<and> (\<forall>con\<in>set new. con_ok h con) \<and>
           (\<forall>index\<in>set idxs. \<forall>isRow. \<exists>con\<in>set new.
              map_err (board_get vars) (line_items index n isRow) = Inr (scope con))"
  using assms(2)
proof (induction idxs arbitrary: acc)
  case Nil
  then show ?case by simp
next
  case (Cons index idxs)
  from Cons.prems obtain rowCon colCon
    where r: "helper_nary_ad_constraint vstr h index n vars True = Inr rowCon"
      and c: "helper_nary_ad_constraint vstr h index n vars False = Inr colCon"
      and rest: "nary_grid_loop vstr h n vars idxs (acc @ [rowCon] @ [colCon]) = Inr cons"
    by (auto simp: and_then_eq_Inr)
  note rk = helper_nary_ok [OF assms(1) r]
  note ck = helper_nary_ok [OF assms(1) c]
  from Cons.IH [OF rest] obtain new
    where new: "cons = (acc @ [rowCon] @ [colCon]) @ new" "\<forall>con\<in>set new. con_ok h con"
      "\<forall>index\<in>set idxs. \<forall>isRow. \<exists>con\<in>set new.
              map_err (board_get vars) (line_items index n isRow) = Inr (scope con)"
    by blast
  have a: "cons = acc @ (rowCon # colCon # new)" using new(1) by simp
  have b: "\<forall>con\<in>set (rowCon # colCon # new). con_ok h con"
    using new(2) rk(1) ck(1) by simp
  have here: "\<exists>con\<in>set (rowCon # colCon # new).
                map_err (board_get vars) (line_items index n isRow) = Inr (scope con)" for isRow
    using rk(2) ck(2) by (cases isRow) auto
  have c: "\<forall>index\<in>set (index # idxs). \<forall>isRow. \<exists>con\<in>set (rowCon # colCon # new).
              map_err (board_get vars) (line_items index n isRow) = Inr (scope con)"
  proof (intro ballI allI)
    fix i isRow assume "i \<in> set (index # idxs)"
    then consider "i = index" | "i \<in> set idxs" by auto
    then show "\<exists>con\<in>set (rowCon # colCon # new).
              map_err (board_get vars) (line_items i n isRow) = Inr (scope con)"
    proof cases
      case 1 with here show ?thesis by simp
    next
      case 2
      with new(3) obtain con where "con \<in> set new"
        "map_err (board_get vars) (line_items i n isRow) = Inr (scope con)" by blast
      then show ?thesis by auto
    qed
  qed
  from a b c show ?case by blast
qed

lemma board_get_cell:
  assumes "i < length vars" "j < length (vars ! i)"
  shows "board_get vars (int i, int j) = Inr (vars ! i ! j)"
  using assms by (simp add: board_get_def getitem_nat)

lemma row_scope:
  assumes len: "length vars = nat n" and rows: "\<forall>row\<in>set vars. length row = nat n"
      and i: "i < nat n"
      and sc: "map_err (board_get vars) (line_items (int i) n True) = Inr sc"
  shows "sc = vars ! i"
proof (rule nth_equalityI)
  have li: "length (line_items (int i) n True) = nat n" by (simp add: line_items_row)
  from map_err_length [OF sc] li have ls: "length sc = nat n" by simp
  have lr: "length (vars ! i) = nat n" using rows len i by simp
  show "length sc = length (vars ! i)" using ls lr by simp
  fix j assume "j < length sc"
  with ls have j: "j < nat n" by simp
  with li have "j < length (line_items (int i) n True)" by simp
  from map_err_nth [OF sc this] j
  have "board_get vars (int i, int j) = Inr (sc ! j)" by (simp add: line_items_row)
  moreover have "board_get vars (int i, int j) = Inr (vars ! i ! j)"
    using len i lr j by (intro board_get_cell) simp_all
  ultimately show "sc ! j = vars ! i ! j" by simp
qed

lemma col_scope:
  assumes len: "length vars = nat n" and rows: "\<forall>row\<in>set vars. length row = nat n"
      and j: "j < nat n"
      and sc: "map_err (board_get vars) (line_items (int j) n False) = Inr sc"
  shows "sc = map (\<lambda>row. row ! j) vars"
proof (rule nth_equalityI)
  have li: "length (line_items (int j) n False) = nat n" by (simp add: line_items_col)
  from map_err_length [OF sc] li have ls: "length sc = nat n" by simp
  show "length sc = length (map (\<lambda>row. row ! j) vars)" using ls len by simp
  fix i assume "i < length sc"
  with ls have i: "i < nat n" by simp
  with li have "i < length (line_items (int j) n False)" by simp
  from map_err_nth [OF sc this] i
  have "board_get vars (int i, int j) = Inr (sc ! i)" by (simp add: line_items_col)
  moreover have "length (vars ! i) = nat n" using rows len i by simp
  then have "board_get vars (int i, int j) = Inr (vars ! i ! j)"
    using len i j by (intro board_get_cell) simp_all
  ultimately show "sc ! i = map (\<lambda>row. row ! j) vars ! i" using len i by simp
qed

lemma con_ok_value:
  assumes "con_ok h con" "k < length (scope con)" "t \<in> set (sat_tuples con)"
  shows "t ! k \<in> set (domain (h ! (scope con ! k)))"
proof -
  from assms(1,3) have l: "list_all2 (\<lambda>x a. x \<in> set (domain (h ! a))) t (scope con)"
    by (simp add: con_ok_def)
  then have "length t = length (scope con)" by (rule list_all2_lengthD)
  with assms(2) have "k < length t" by simp
  with l show ?thesis by (simp add: list_all2_conv_all_nth)
qed

lemma shape_lengths:
  assumes "map length vars' = map length vars" "length vars = N" "\<forall>row\<in>set vars. length row = N"
  shows "length vars' = N" "\<forall>row\<in>set vars'. length row = N"
proof -
  from assms(1) have "length (map length vars') = length (map length vars)" by simp
  with assms(2) show l: "length vars' = N" by simp
  show "\<forall>row\<in>set vars'. length row = N"
  proof
    fix row assume "row \<in> set vars'"
    then obtain i where i: "i < length vars'" "row = vars' ! i" by (auto simp: in_set_conv_nth)
    with l assms(2) have iv: "i < length vars" by simp
    from i have "length row = map length vars' ! i" by simp
    also have "\<dots> = map length vars ! i" by (simp only: assms(1))
    also have "\<dots> = length (vars ! i)" using iv by simp
    also have "\<dots> = N" using assms(3) iv by simp
    finally show "length row = N" .
  qed
qed

lemma later_cage_scope:
  assumes board: "board_ok h2 v2" and cons: "\<forall>con\<in>set c2. con_ok h2 con"
      and run: "cage_loop ops vstr (mid @ cage # rest) (h2, v2, c2) = Inr (h, vars, cageCons)"
      and wf: "1 \<le> c div 10" "1 \<le> c mod 10"
      and later: "\<forall>row\<in>set mid. length row = 2 \<longrightarrow>
                    1 \<le> row ! 0 div 10 \<and> 1 \<le> row ! 0 mod 10 \<and> row ! 0 \<noteq> c"
      and cell: "board_get v2 (c div 10 - 1, c mod 10 - 1) = Inr a"
      and cage: "2 < length cage" "k < length cage - 2" "cage ! k = c"
  shows "scope (cageCons ! (length c2 + length (filter (\<lambda>row. 2 < length row) mid))) ! k = a"
proof -
  from run obtain st3 where m: "cage_loop ops vstr mid (h2, v2, c2) = Inr st3"
    and r3: "cage_loop ops vstr (cage # rest) st3 = Inr (h, vars, cageCons)"
    unfolding cage_loop_append and_then_eq_Inr by blast
  obtain h3 v3 c3 where st3: "st3 = (h3, v3, c3)" by (cases st3) auto
  from r3 obtain st4 where s: "cage_step ops vstr cage (h3, v3, c3) = Inr st4"
    and r4: "cage_loop ops vstr rest st4 = Inr (h, vars, cageCons)"
    unfolding st3 by (auto simp: and_then_eq_Inr)
  obtain h4 v4 c4 where st4: "st4 = (h4, v4, c4)" by (cases st4) auto
  from cage_loop_ok [OF board cons m [unfolded st3]]
  have b3: "board_ok h3 v3" and k3: "\<forall>con\<in>set c3. con_ok h3 con"
    and n3: "\<exists>new. c3 = c2 @ new \<and> length new = length (filter (\<lambda>row. 2 < length row) mid)"
    by blast+
  from n3 have l3: "length c3 = length c2 + length (filter (\<lambda>row. 2 < length row) mid)" by auto
  have cell3: "board_get v3 (c div 10 - 1, c mod 10 - 1) = Inr a"
    using cage_loop_keeps_cell [OF m [unfolded st3] wf later cell] .
  from s cage(1) have l: "larger_cage ops vstr cage (h3, v3, c3) = Inr (h4, v4, c4)"
    by (simp add: cage_step_cases st4)
  note lk = larger_cage_ok [OF b3 l]
  from lk(3) obtain con where c4: "c4 = c3 @ [con]" and ok: "con_ok h3 con"
    and cells: "map_err (\<lambda>v. board_get v3 (v div 10 - 1, v mod 10 - 1))
                  (take (length cage - 2) cage) = Inr (scope con)"
    by blast
  have kk: "k < length (take (length cage - 2) cage)" using cage(1,2) by simp
  from map_err_nth [OF cells kk] cage(2,3)
  have "board_get v3 (c div 10 - 1, c mod 10 - 1) = Inr (scope con ! k)" by simp
  with cell3 have sk: "scope con ! k = a" by simp
  have b4: "board_ok h4 v4" using b3 lk(1,2) by simp
  have k4: "\<forall>con\<in>set c4. con_ok h4 con" using k3 ok c4 lk(1) by auto
  from cage_loop_ok [OF b4 k4 r4 [unfolded st4]]
  obtain new where "cageCons = c4 @ new" by blast
  with c4 have "cageCons ! length c3 = con" by simp
  with sk l3 show ?thesis by simp
qed

lemma forced_cell_model:
  assumes run: "kenken_csp_model ops vstr h0 (pre @ [c, v] # post) = Inr (h, csp, vars)"
      and wf1: "1 \<le> c div 10" and wf2: "1 \<le> c mod 10"
      and later: "\<forall>row\<in>set post. length row = 2 \<longrightarrow>
                    1 \<le> row ! 0 div 10 \<and> 1 \<le> row ! 0 mod 10 \<and> row ! 0 \<noteq> c"
  shows "\<exists>a. board_get vars (c div 10 - 1, c mod 10 - 1) = Inr a \<and>
             vars ! nat (c div 10 - 1) ! nat (c mod 10 - 1) = a \<and>
             domain (h ! a) = [v] \<and>
             (\<forall>con\<in>set (csp_cons csp). \<forall>k<length (scope con). scope con ! k = a \<longrightarrow>
                (\<forall>t\<in>set (sat_tuples con). t ! k = v)) \<and>
             (\<forall>i<length (filter (\<lambda>row. 2 < length row) pre). a \<notin> set (scope (csp_cons csp ! i))) \<and>
             (\<forall>mid cage rest k.
                 post = mid @ cage # rest \<longrightarrow> 2 < length cage \<longrightarrow> k < length cage - 2 \<longrightarrow>
                 cage ! k = c \<longrightarrow>
                 scope (csp_cons csp ! length (filter (\<lambda>row. 2 < length row) (pre @ mid))) ! k = a) \<and>
             (\<exists>con\<in>set (csp_cons csp). scope con = vars ! nat (c div 10 - 1)) \<and>
             (\<exists>con\<in>set (csp_cons csp). scope con = map (\<lambda>row. row ! nat (c mod 10 - 1)) vars)"
proof -
  let ?cages = "\<lambda>rows. length (filter (\<lambda>row. 2 < length row) rows)"
  let ?cell = "(c div 10 - 1, c mod 10 - 1)"
  from kenken_csp_model_run [OF run] obtain first n hb vb cageCons cons
    where nb: "new_board h0 (map (\<lambda>i. i + 1) (range_py n)) (map (\<lambda>i. i + 1) (range_py n)) [] = (hb, vb)"
      and loop: "cage_loop ops vstr (pre @ [c, v] # post) (hb, vb, []) = Inr (h, vars, cageCons)"
      and grid: "nary_grid_loop vstr h n vars (range_py n) cageCons = Inr cons"
      and csp: "csp = build_csp n vars cons"
    by blast
  have cc: "csp_cons csp = cons" by (simp add: csp build_csp_fields)
  have b0: "board_ok hb vb" using nb by (rule new_board_ok)
  have shape0: "length vb = nat n" "\<forall>row\<in>set vb. length row = nat n"
    using new_board_shape(1,2) [OF nb] by (simp_all add: range_py_def)
  \<comment> \<open>the rows before the forced row\<close>
  from loop obtain st1 where p: "cage_loop ops vstr pre (hb, vb, []) = Inr st1"
    and r1: "cage_loop ops vstr ([c, v] # post) st1 = Inr (h, vars, cageCons)"
    unfolding cage_loop_append and_then_eq_Inr by blast
  obtain h1 v1 c1 where st1: "st1 = (h1, v1, c1)" by (cases st1) auto
  have "\<forall>con\<in>set []. con_ok hb con" by simp
  from cage_loop_ok [OF b0 this p [unfolded st1]]
  have b1: "board_ok h1 v1" and k1: "\<forall>con\<in>set c1. con_ok h1 con"
    and s1: "map length v1 = map length vb"
    and n1: "\<exists>new. c1 = [] @ new \<and> length new = ?cages pre"
    by blast+
  from n1 have l1: "length c1 = ?cages pre" by auto
  \<comment> \<open>the forced row\<close>
  from r1 obtain st2 where f: "cage_step ops vstr [c, v] (h1, v1, c1) = Inr st2"
    and r2: "cage_loop ops vstr post st2 = Inr (h, vars, cageCons)"
    unfolding st1 by (auto simp: and_then_eq_Inr)
  obtain h2 v2 c2 where st2: "st2 = (h2, v2, c2)" by (cases st2) auto
  from f have ff: "forced_cell [c, v] (h1, v1, c1) = Inr (h2, v2, c2)"
    by (simp add: cage_step_cases st2)
  note fk = forced_cell_ok [OF b1 ff]
  define a where "a = length h1"
  from fk(2) obtain x where h2: "h2 = h1 @ [x]" and dx: "domain x = [v]" by auto
  have c2: "c2 = c1" by (rule fk(3))
  have cell2: "board_get v2 ?cell = Inr a" using fk(5) by (simp add: a_def)
  have b2: "board_ok h2 v2" by (rule fk(1))
  have k2: "\<forall>con\<in>set c2. con_ok h2 con"
    unfolding c2 h2 using k1 con_ok_extend by blast
  \<comment> \<open>the rows after the forced row\<close>
  from cage_loop_ok [OF b2 k2 r2 [unfolded st2]]
  have b3: "board_ok h vars" and k3: "\<forall>con\<in>set cageCons. con_ok h con"
    and e3: "\<exists>ext. h = h2 @ ext" and s3: "map length vars = map length v2"
    and n3: "\<exists>new. cageCons = c2 @ new \<and> length new = ?cages post"
    by blast+
  have cell3: "board_get vars ?cell = Inr a"
    using cage_loop_keeps_cell [OF r2 [unfolded st2] wf1 wf2 later cell2] .
  \<comment> \<open>the grid constraints\<close>
  from nary_grid_loop_ok [OF b3 grid] obtain gridCons
    where g: "cons = cageCons @ gridCons" and gk: "\<forall>con\<in>set gridCons. con_ok h con"
      and gs: "\<forall>index\<in>set (range_py n). \<forall>isRow. \<exists>con\<in>set gridCons.
                 map_err (board_get vars) (line_items index n isRow) = Inr (scope con)"
    by blast
  have allok: "\<forall>con\<in>set cons. con_ok h con" using k3 gk g by auto
  \<comment> \<open>the new variable\<close>
  from e3 obtain ext where h: "h = (h1 @ [x]) @ ext" unfolding h2 by blast
  have ha: "h ! a = x" unfolding h a_def by (simp add: nth_append)
  have dom: "domain (h ! a) = [v]" using ha dx by simp
  have B: "\<forall>con\<in>set (csp_cons csp). \<forall>k<length (scope con). scope con ! k = a \<longrightarrow>
             (\<forall>t\<in>set (sat_tuples con). t ! k = v)"
  proof (intro ballI allI impI)
    fix con k t
    assume con: "con \<in> set (csp_cons csp)" and k: "k < length (scope con)"
      and ka: "scope con ! k = a" and t: "t \<in> set (sat_tuples con)"
    from con allok cc have "con_ok h con" by simp
    from con_ok_value [OF this k t] ka dom show "t ! k = v" by simp
  qed
  have C: "\<forall>i<?cages pre. a \<notin> set (scope (csp_cons csp ! i))"
  proof (intro allI impI)
    fix i assume i: "i < ?cages pre"
    from n3 c2 obtain new where "cageCons = c1 @ new" by blast
    with g have "cons = c1 @ (new @ gridCons)" by simp
    with i l1 have e: "csp_cons csp ! i = c1 ! i" by (simp add: cc nth_append)
    from i l1 have "c1 ! i \<in> set c1" by simp
    with k1 have "\<forall>b\<in>set (scope (c1 ! i)). b < length h1" by (simp add: con_ok_def)
    then show "a \<notin> set (scope (csp_cons csp ! i))" unfolding e a_def by auto
  qed
  have D: "\<forall>mid cage rest k.
             post = mid @ cage # rest \<longrightarrow> 2 < length cage \<longrightarrow> k < length cage - 2 \<longrightarrow>
             cage ! k = c \<longrightarrow>
             scope (csp_cons csp ! ?cages (pre @ mid)) ! k = a"
  proof (intro allI impI)
    fix mid cage rest k
    assume post: "post = mid @ cage # rest" and cg: "2 < length cage" "k < length cage - 2" "cage ! k = c"
    from later post have lm: "\<forall>row\<in>set mid. length row = 2 \<longrightarrow>
        1 \<le> row ! 0 div 10 \<and> 1 \<le> row ! 0 mod 10 \<and> row ! 0 \<noteq> c"
      by simp
    from later_cage_scope [OF b2 k2 r2 [unfolded st2 post] wf1 wf2 lm cell2 cg]
    have sk: "scope (cageCons ! (length c2 + ?cages mid)) ! k = a" .
    from n3 post have "length cageCons = length c2 + ?cages (mid @ cage # rest)" by auto
    with cg(1) have "length c2 + ?cages mid < length cageCons" by simp
    with g have "cons ! (length c2 + ?cages mid) = cageCons ! (length c2 + ?cages mid)"
      by (simp add: nth_append)
    with sk show "scope (csp_cons csp ! ?cages (pre @ mid)) ! k = a"
      by (simp add: cc c2 l1)
  qed
  \<comment> \<open>the row and the column constraint of the cell\<close>
  have shape2: "length v2 = nat n" "\<forall>row\<in>set v2. length row = nat n"
    using shape_lengths [OF fk(4)] shape_lengths [OF s1 shape0] by blast+
  have shape: "length vars = nat n" "\<forall>row\<in>set vars. length row = nat n"
    using shape_lengths [OF s3 shape2] by blast+
  from cell3 obtain i j where i: "py_index vars (c div 10 - 1) = Inr i"
    and j: "py_index (vars ! i) (c mod 10 - 1) = Inr j" and aij: "a = vars ! i ! j"
    unfolding board_get_conv by auto
  have ii: "i = nat (c div 10 - 1)" by (rule py_index_pred [OF i wf1])
  have jj: "j = nat (c mod 10 - 1)" by (rule py_index_pred [OF j wf2])
  have il: "i < nat n" using py_index_bound [OF i] shape(1) by simp
  have "vars ! i \<in> set vars" using il shape(1) by simp
  with shape(2) have "length (vars ! i) = nat n" by blast
  with py_index_bound [OF j] have jl: "j < nat n" by simp
  have A2: "vars ! nat (c div 10 - 1) ! nat (c mod 10 - 1) = a"
    using aij ii jj by simp
  have ir: "int i \<in> set (range_py n)" using il by (simp add: range_py_def)
  have jr: "int j \<in> set (range_py n)" using jl by (simp add: range_py_def)
  from gs ir obtain rowCon where rc: "rowCon \<in> set gridCons"
    and rs: "map_err (board_get vars) (line_items (int i) n True) = Inr (scope rowCon)"
    by blast
  from gs jr obtain colCon where cl: "colCon \<in> set gridCons"
    and cs: "map_err (board_get vars) (line_items (int j) n False) = Inr (scope colCon)"
    by blast
  have E: "\<exists>con\<in>set (csp_cons csp). scope con = vars ! nat (c div 10 - 1)"
    using row_scope [OF shape il rs] rc g by (auto simp: cc ii)
  have F: "\<exists>con\<in>set (csp_cons csp). scope con = map (\<lambda>row. row ! nat (c mod 10 - 1)) vars"
    using col_scope [OF shape jl cs] cl g by (auto simp: cc jj)
  show ?thesis
    by (rule exI [of _ a]) (intro conjI cell3 A2 dom B C D E F)
qed




end
